theory Spec2Isabelle
  imports Main "HOL-Library.Word"
begin

unbundle bit_operations_syntax

section \<open>Data model of the encoder (tdb\_encode.c)\<close>

text \<open>
  An item is a packed 32-bit integer (the edge buffer and the last-seen table are arrays
  of 4-byte entries). An event of the caller's flat array carries a 1-based backlink to
  the previous event of the same cookie, 0 meaning that there is none. A grouped record
  is what \<open>group_events\<close> spills to the intermediate file.
\<close>

type_synonym tdb_item = "32 word"

record tdb_event =
  timestamp :: "32 word"
  item_zero :: "64 word"
  num_items :: "32 word"
  prev_event_idx :: "64 word"

record tdb_cookie_event =
  cookie_id :: "64 word"
  c_item_zero :: "64 word"
  c_num_items :: "32 word"
  c_timestamp :: "32 word"

text \<open>
  Every way in which the run can end other than by returning: \<open>Fault\<close> is a read or
  write outside an array (undefined behaviour in C), \<open>Chain_too_long\<close> is a backlink
  chain that does not end within the group buffer, the other three are the \<open>DIE\<close>
  calls of the source. Failures of the allocator and of the file system are outside the
  model.
\<close>

datatype error =
    Fault
  | Chain_too_long
  | Too_many_invalid
  | Cookie_trail_too_long
  | Trail_over_4GB

definition UINT32_MAX :: nat where
  "UINT32_MAX = 4294967295"

section \<open>group\_events\<close>

text \<open>
  The \<open>while (1)\<close> loop of \<open>group_events\<close>: the event under the cursor is copied to
  the buffer before its backlink is looked at. The loop has no bound of its own; the
  model gives it as many steps as the caller allows and reports \<open>Chain_too_long\<close>
  when they are used up.
\<close>

fun follow_backlinks ::
  "tdb_event list \<Rightarrow> 64 word \<Rightarrow> nat \<Rightarrow> nat \<Rightarrow> error + tdb_cookie_event list" where
  "follow_backlinks events i 0 idx = Inl Chain_too_long"
| "follow_backlinks events i (Suc fuel) idx =
     (if idx < length events then
        (let ev = events ! idx;
             b = \<lparr>cookie_id = i, c_item_zero = item_zero ev,
                  c_num_items = num_items ev, c_timestamp = timestamp ev\<rparr>
         in if prev_event_idx ev \<noteq> 0 then
              (case follow_backlinks events i fuel (unat (prev_event_idx ev - 1)) of
                 Inl e \<Rightarrow> Inl e
               | Inr bs \<Rightarrow> Inr (b # bs))
            else Inr [b])
      else Inl Fault)"

text \<open>
  The number of steps: a chain without a repeated event has at most \<open>length events\<close>
  records, and one with a repeated event never ends. The index \<open>j\<close> and the buffer
  size are \<open>uint32_t\<close>, the buffer grows by \<open>GROUPBUF_INCREMENT = 10000000\<close>, and
  the size wraps around at its 430th growth, so the buffer holds at most 4290000000
  records.
\<close>

definition chain_limit :: "tdb_event list \<Rightarrow> nat" where
  "chain_limit events = min (length events) 4290000000"

text \<open>
  The delta encoding loop over the sorted buffer. The subtraction is that of
  \<open>uint32_t\<close> and wraps around. Returns the rewritten buffer, the largest delta seen
  on a valid record and the count of invalid records.
\<close>

fun delta_encode ::
  "32 word \<Rightarrow> tdb_cookie_event list \<Rightarrow> 32 word \<Rightarrow> nat
    \<Rightarrow> tdb_cookie_event list \<times> 32 word \<times> nat" where
  "delta_encode prev_timestamp [] max_timestamp_delta num_invalid =
     ([], max_timestamp_delta, num_invalid)"
| "delta_encode prev_timestamp (b # bs) max_timestamp_delta num_invalid =
     (let prev = c_timestamp b;
          d = c_timestamp b - prev_timestamp
      in if d < 2 ^ 24 then
           (case delta_encode prev bs
                   (if d > max_timestamp_delta then d else max_timestamp_delta) num_invalid of
              (out, m, n) \<Rightarrow> (b\<lparr>c_timestamp := push_bit 8 d\<rparr> # out, m, n))
         else
           (case delta_encode prev_timestamp bs max_timestamp_delta (num_invalid + 1) of
              (out, m, n) \<Rightarrow> (b\<lparr>c_timestamp := 1\<rparr> # out, m, n)))"

text \<open>
  One iteration of the loop over the cookies: follow the chain from the cookie's pointer,
  sort by timestamp (\<open>qsort\<close> with \<open>compare\<close>; the order of equal timestamps is
  not fixed by \<open>qsort\<close>, the model keeps them in buffer order), delta-encode from the
  base timestamp.
\<close>

definition group_cookie ::
  "tdb_event list \<Rightarrow> 32 word \<Rightarrow> 64 word \<Rightarrow> 64 word \<Rightarrow> 32 word \<Rightarrow> nat
    \<Rightarrow> error + (tdb_cookie_event list \<times> 32 word \<times> nat)" where
  "group_cookie events base_timestamp i ptr max_timestamp_delta num_invalid =
     (case follow_backlinks events i (chain_limit events) (unat ptr) of
        Inl e \<Rightarrow> Inl e
      | Inr buf \<Rightarrow>
          Inr (delta_encode base_timestamp (sort_key c_timestamp buf)
                 max_timestamp_delta num_invalid))"

fun group_cookies ::
  "tdb_event list \<Rightarrow> 32 word \<Rightarrow> nat \<Rightarrow> 64 word list \<Rightarrow> 32 word \<Rightarrow> nat
    \<Rightarrow> error + (tdb_cookie_event list \<times> 32 word \<times> nat)" where
  "group_cookies events base_timestamp i [] max_timestamp_delta num_invalid =
     Inr ([], max_timestamp_delta, num_invalid)"
| "group_cookies events base_timestamp i (ptr # ptrs) max_timestamp_delta num_invalid =
     (case group_cookie events base_timestamp (of_nat i) ptr max_timestamp_delta num_invalid of
        Inl e \<Rightarrow> Inl e
      | Inr (run, m, n) \<Rightarrow>
          (case group_cookies events base_timestamp (Suc i) ptrs m n of
             Inl e \<Rightarrow> Inl e
           | Inr (rest, m', n') \<Rightarrow> Inr (run @ rest, m', n')))"

text \<open>
  The test \<open>num_invalid / (float)idx > MAX_INVALID_RATIO\<close>. With a divisor of zero the
  IEEE quotient is \<open>+inf\<close> for a positive count, which is greater than 0.005, and
  \<open>NaN\<close> for a count of zero, which compares false. With a positive divisor the model
  compares the exact quotient with 5/1000.
\<close>

definition invalid_ratio_exceeded :: "nat \<Rightarrow> nat \<Rightarrow> bool" where
  "invalid_ratio_exceeded num_invalid idx =
     (if idx = 0 then 0 < num_invalid else 5 * idx < 1000 * num_invalid)"

text \<open>
  \<open>group_events\<close>: the array of cookie pointers has \<open>num_cookies\<close> entries. The
  divisor \<open>idx\<close> is set to 0 at its declaration and the function has no other
  assignment to it. The result is the content of the intermediate file and the largest
  delta.
\<close>

definition group_events ::
  "tdb_event list \<Rightarrow> 64 word list \<Rightarrow> 32 word \<Rightarrow> error + (tdb_cookie_event list \<times> 32 word)" where
  "group_events events cookie_pointers base_timestamp =
     (let idx = (0::nat) in
      case group_cookies events base_timestamp 0 cookie_pointers 0 0 of
        Inl e \<Rightarrow> Inl e
      | Inr (grouped, max_timestamp_delta, num_invalid) \<Rightarrow>
          if invalid_ratio_exceeded num_invalid idx then Inl Too_many_invalid
          else Inr (grouped, max_timestamp_delta))"

section \<open>edge\_encode\_items\<close>

text \<open>
  The output buffer \<open>encoded\<close> of \<open>edge_encode_items\<close> grows by
  \<open>EDGE_INCREMENT = 1000000\<close> entries whenever the count \<open>n\<close> of emitted items has
  reached its size. The size starts at 0 in \<open>encode_trails\<close> and is kept from one
  event to the next, so it is always a multiple of 1000000. The size in bytes,
  \<open>*encoded_size * 4\<close>, is computed in \<open>uint32_t\<close>: up to the size 1073000000 it is the
  product, and at the growth to 1074000000 it wraps around to 1032704 bytes, which hold
  258176 entries, so that the store at index 1073000000 that follows is outside the
  buffer. Whatever the size before an event, the event can emit 1073000000 items and no
  more.
\<close>

definition EDGE_INCREMENT :: nat where
  "EDGE_INCREMENT = 1000000"

definition edge_buffer_entries :: "nat \<Rightarrow> nat" where
  "edge_buffer_entries encoded_size = (encoded_size * 4) mod 2 ^ 32 div 4"

definition edge_limit :: nat where
  "edge_limit = 1073000000"

text \<open>
  The loop of \<open>edge_encode_items\<close> over the item indices of one event. The function
  \<open>tdb_item_field\<close> of the source, which extracts the field of an item, is declared in a
  header outside the sources and is a parameter here. A read outside the item array or
  the last-seen table is a \<open>Fault\<close>, and so is the store of an item when
  \<open>edge_limit\<close> items have been emitted for the event.
\<close>

fun edge_loop ::
  "(tdb_item \<Rightarrow> nat) \<Rightarrow> tdb_item list \<Rightarrow> nat list \<Rightarrow> tdb_item list \<Rightarrow> tdb_item list
    \<Rightarrow> error + (tdb_item list \<times> tdb_item list)" where
  "edge_loop tdb_item_field items [] encoded prev_items = Inr (encoded, prev_items)"
| "edge_loop tdb_item_field items (j # js) encoded prev_items =
     (if j < length items then
        (let field = tdb_item_field (items ! j)
         in if field < length prev_items then
              (if prev_items ! field \<noteq> items ! j then
                 (if length encoded < edge_limit then
                    edge_loop tdb_item_field items js
                      (encoded @ [items ! j]) (prev_items[field := items ! j])
                  else Inl Fault)
               else edge_loop tdb_item_field items js encoded prev_items)
            else Inl Fault)
      else Inl Fault)"

text \<open>
  The index \<open>j\<close> runs from \<open>item_zero\<close> while it is below
  \<open>item_zero + num_items\<close>, a sum of \<open>uint64_t\<close>. The result is the encoded items
  (the first \<open>n\<close> entries of the output buffer) and the updated table.
\<close>

definition edge_encode_items ::
  "(tdb_item \<Rightarrow> nat) \<Rightarrow> tdb_item list \<Rightarrow> tdb_item list \<Rightarrow> tdb_cookie_event
    \<Rightarrow> error + (tdb_item list \<times> tdb_item list)" where
  "edge_encode_items tdb_item_field items prev_items ev =
     (if c_timestamp ev AND 255 = 0 then
        edge_loop tdb_item_field items
          [unat (c_item_zero ev) ..< unat (c_item_zero ev + ucast (c_num_items ev))]
          [] prev_items
      else Inr ([], prev_items))"

section \<open>timestamp\_range and store\_info\<close>

definition timestamp_range :: "tdb_event list \<Rightarrow> 32 word \<times> 32 word" where
  "timestamp_range events =
     foldl (\<lambda>(min_timestamp, max_timestamp) e.
              (if timestamp e < min_timestamp then timestamp e else min_timestamp,
               if timestamp e > max_timestamp then timestamp e else max_timestamp))
       (of_nat UINT32_MAX, 0) events"

text \<open>
  The conversions \<open>%llu\<close> and \<open>%u\<close> of \<open>fprintf\<close>: an unsigned number in
  decimal, without sign, padding or leading zeros.
\<close>

definition digit_char :: "nat \<Rightarrow> char" where
  "digit_char d = ''0123456789'' ! d"

fun decimal :: "nat \<Rightarrow> string" where
  "decimal n = (if n < 10 then [digit_char n] else decimal (n div 10) @ [digit_char (n mod 10)])"

declare decimal.simps [simp del]

text \<open>
  \<open>store_info\<close> prints with the format \<open>"%llu %llu %u %u %u\n"\<close> the arguments
  \<open>num_cookies\<close>, \<open>num_events\<close>, \<open>min_timestamp\<close>, \<open>max_timestamp\<close>,
  \<open>max_timestamp_delta\<close>, in this order. The result is the content of the info file.
\<close>

definition store_info :: "nat \<Rightarrow> nat \<Rightarrow> 32 word \<Rightarrow> 32 word \<Rightarrow> 32 word \<Rightarrow> string" where
  "store_info num_events num_cookies min_timestamp max_timestamp max_timestamp_delta =
     decimal num_cookies @ '' '' @ decimal num_events @ '' '' @
     decimal (unat min_timestamp) @ '' '' @ decimal (unat max_timestamp) @ '' '' @
     decimal (unat max_timestamp_delta) @ [CHR 0x0A]"

section \<open>The bit buffer and the trail file\<close>

text \<open>
  The trail buffer \<open>buf\<close> is addressed by bit offsets: bit \<open>k\<close> of the buffer is bit
  \<open>k mod 8\<close> of byte \<open>k div 8\<close>. \<open>calloc\<close> returns it zeroed.
\<close>

type_synonym bitbuf = "nat \<Rightarrow> bool"

definition zero_buf :: bitbuf where
  "zero_buf = (\<lambda>k. False)"

text \<open>
  Modelled from the spec: \<open>write_bits\<close> is declared in \<open>ddb_bits.h\<close>, which is not
  among the sources. The spec calls it the bit-writing routine and describes the 3 header
  bits as a length residual "recording how many trailing bits of the final byte are
  padding"; the source calls it as \<open>write_bits(buf, 0, 8 - (offs & 7))\<close> under the
  comment "write the length residual". \<open>write_bits buf offs val\<close> sets, from bit offset
  \<open>offs\<close> on, the bits that are set in \<open>val\<close>, and leaves every other bit as it is.
\<close>

definition write_bits :: "bitbuf \<Rightarrow> nat \<Rightarrow> nat \<Rightarrow> bitbuf" where
  "write_bits buf offs val = (\<lambda>k. buf k \<or> (offs \<le> k \<and> bit val (k - offs)))"

text \<open>
  Modelled from the spec: \<open>choose_grams\<close> and \<open>huff_encode_grams\<close> belong to the
  entropy coder, which is not among the sources. The spec gives
  \<open>choose_grams(encoded_items, count, gram_frequency_model, scratch, event) -> grams\<close> and
  \<open>encode_grams(codemap, grams, count, out_bitbuffer, bit_offset_inout, stats)\<close>, which
  "guarantees it never advances the bit offset past 2^32 bits for a single entity's call
  sequence, or the whole run fails"; the source says that it "writes fewer than UINT32_MAX
  bits per buffer, or it fails". The code bits that the two produce for one event are a
  parameter \<open>gram_code\<close> of the model, a function of the event and of its edge-encoded
  items. \<open>huff_encode_grams\<close> sets them in the buffer from the bit offset on and advances
  the offset by their number, or fails when the offset would reach \<open>UINT32_MAX\<close>.
\<close>

definition huff_encode_grams :: "bool list \<Rightarrow> bitbuf \<Rightarrow> nat \<Rightarrow> error + (bitbuf \<times> nat)" where
  "huff_encode_grams code buf offs =
     (if UINT32_MAX \<le> offs + length code then Inl Cookie_trail_too_long
      else Inr (\<lambda>k. buf k \<or> (offs \<le> k \<and> k < offs + length code \<and> code ! (k - offs)),
                offs + length code))"

text \<open>\<open>memset(buf, 0, n)\<close> clears the first \<open>n\<close> bytes.\<close>

definition memset_zero :: "bitbuf \<Rightarrow> nat \<Rightarrow> bitbuf" where
  "memset_zero buf n = (\<lambda>k. if k < 8 * n then False else buf k)"

definition buf_byte :: "bitbuf \<Rightarrow> nat \<Rightarrow> 8 word" where
  "buf_byte buf j = horner_sum of_bool 2 (map (\<lambda>b. buf (8 * j + b)) [0..<8])"

definition buf_bytes :: "bitbuf \<Rightarrow> nat \<Rightarrow> 8 word list" where
  "buf_bytes buf n = map (buf_byte buf) [0..<n]"

text \<open>
  The trail file is the sequence of the writes made to it, the latest first: each is a
  seek to a position followed by a write of some bytes there. A byte of the file is what
  the latest write covering it has put there, and 0 where nothing has been written; the
  size of the file is the end of the write that reaches furthest.
\<close>

type_synonym trail_file = "(nat \<times> 8 word list) list"

fun file_size :: "trail_file \<Rightarrow> nat" where
  "file_size [] = 0"
| "file_size ((pos, bytes) # out) =
     (if bytes = [] then file_size out else max (pos + length bytes) (file_size out))"

fun file_byte :: "trail_file \<Rightarrow> nat \<Rightarrow> 8 word" where
  "file_byte [] k = 0"
| "file_byte ((pos, bytes) # out) k =
     (if pos \<le> k \<and> k < pos + length bytes then bytes ! (k - pos) else file_byte out k)"

text \<open>
  \<open>SAFE_WRITE(&file_offs, 4, path, out)\<close> writes the first 4 bytes of the
  \<open>uint64_t\<close> offset, on a little-endian machine its low 32 bits, lowest byte first.
\<close>

definition le32 :: "nat \<Rightarrow> 8 word list" where
  "le32 n = map (\<lambda>b. of_nat (n div 256 ^ b)) [0..<4]"

text \<open>
  \<open>fread\<close> of one record from the intermediate file: at the end of the file nothing is
  read and \<open>ev\<close> keeps its value (the source does not look at the return value).
\<close>

definition fread ::
  "tdb_cookie_event \<Rightarrow> tdb_cookie_event list \<Rightarrow> tdb_cookie_event \<times> tdb_cookie_event list" where
  "fread ev grouped = (case grouped of [] \<Rightarrow> (ev, []) | r # rs \<Rightarrow> (r, rs))"

section \<open>encode\_trails\<close>

text \<open>
  The inner \<open>for\<close> loop of \<open>encode_trails\<close>, which encodes the events of one cookie:
  \<open>i\<close> counts the records consumed, \<open>ev\<close> is the record under the cursor and
  \<open>grouped\<close> the unread rest of the intermediate file.
\<close>

function encode_cookie ::
  "(tdb_item \<Rightarrow> nat) \<Rightarrow> (tdb_cookie_event \<Rightarrow> tdb_item list \<Rightarrow> bool list) \<Rightarrow> tdb_item list
    \<Rightarrow> nat \<Rightarrow> 64 word
    \<Rightarrow> nat \<Rightarrow> tdb_cookie_event \<Rightarrow> tdb_cookie_event list \<Rightarrow> tdb_item list \<Rightarrow> bitbuf \<Rightarrow> nat
    \<Rightarrow> error + (nat \<times> tdb_cookie_event \<times> tdb_cookie_event list \<times> bitbuf \<times> nat)" where
  "encode_cookie tdb_item_field gram_code items num_events cid i ev grouped prev_items buf offs =
     (if i < num_events \<and> cookie_id ev = cid then
        (case edge_encode_items tdb_item_field items prev_items ev of
           Inl e \<Rightarrow> Inl e
         | Inr (encoded, prev_items') \<Rightarrow>
             (case huff_encode_grams (gram_code ev encoded) buf offs of
                Inl e \<Rightarrow> Inl e
              | Inr (buf', offs') \<Rightarrow>
                  encode_cookie tdb_item_field gram_code items num_events cid
                    (i + 1) (fst (fread ev grouped)) (snd (fread ev grouped))
                    prev_items' buf' offs'))
      else Inr (i, ev, grouped, buf, offs))"
  by pat_completeness auto
termination
  by (relation "measure (\<lambda>(f, g, items, num_events, cid, i, r). num_events - i)") auto

declare encode_cookie.simps [simp del]

text \<open>
  The length residual: a trail whose bit length is not a multiple of 8 takes one more
  byte, and the number of unused bits of that byte is written at bit offset 0.
\<close>

definition length_residual :: "bitbuf \<Rightarrow> nat \<Rightarrow> nat \<times> bitbuf" where
  "length_residual buf offs =
     (if offs mod 8 \<noteq> 0 then (offs div 8 + 1, write_bits buf 0 (8 - offs mod 8))
      else (offs div 8, buf))"

lemma encode_cookie_mono:
  "encode_cookie f g items num_events cid i ev grouped prev buf offs = Inr (i', r) \<Longrightarrow> i \<le> i'"
proof (induction f g items num_events cid i ev grouped prev buf offs rule: encode_cookie.induct)
  case (1 f g items num_events cid i ev grouped prev buf offs)
  show ?case
  proof (cases "i < num_events \<and> cookie_id ev = cid")
    case True
    with "1.prems" obtain encoded prev' buf' offs' where
      e: "edge_encode_items f items prev ev = Inr (encoded, prev')"
      and h: "huff_encode_grams (g ev encoded) buf offs = Inr (buf', offs')"
      and r: "encode_cookie f g items num_events cid (i + 1) (fst (fread ev grouped))
                (snd (fread ev grouped)) prev' buf' offs' = Inr (i', r)"
      by (subst (asm) encode_cookie.simps) (auto split: sum.splits)
    from "1.IH" [OF True e refl h refl r] show ?thesis by simp
  next
    case False
    with "1.prems" show ?thesis by (subst (asm) encode_cookie.simps) auto
  qed
qed

lemma encode_cookie_progress:
  assumes "encode_cookie f g items num_events (cookie_id ev) i ev grouped prev buf offs = Inr (i', r)"
      and "i < num_events"
  shows "i < i'"
proof -
  from assms obtain encoded prev' buf' offs' where
    "encode_cookie f g items num_events (cookie_id ev) (i + 1) (fst (fread ev grouped))
       (snd (fread ev grouped)) prev' buf' offs' = Inr (i', r)"
    by (subst (asm) encode_cookie.simps) (auto split: sum.splits)
  from encode_cookie_mono [OF this] show ?thesis by simp
qed

text \<open>
  The outer \<open>while\<close> loop. Each round writes the current offset into the slot of the
  cookie under the cursor, clears the last-seen table, encodes the cookie's events from
  bit offset 3, writes the length residual, appends the trail at \<open>file_offs\<close>, advances
  \<open>file_offs\<close>, checks it against \<open>UINT32_MAX\<close> and clears the used bytes of the
  buffer. The table is allocated and cleared with a size of \<open>num_fields * 4\<close> bytes
  computed in \<open>uint32_t\<close>. The offsets stay far below \<open>2^64\<close> (the trail of one cookie
  has fewer than \<open>UINT32_MAX\<close> bits), so they are natural numbers here.
\<close>

function encode_loop ::
  "(tdb_item \<Rightarrow> nat) \<Rightarrow> (tdb_cookie_event \<Rightarrow> tdb_item list \<Rightarrow> bool list) \<Rightarrow> tdb_item list
    \<Rightarrow> nat \<Rightarrow> 32 word
    \<Rightarrow> nat \<Rightarrow> tdb_cookie_event \<Rightarrow> tdb_cookie_event list \<Rightarrow> nat \<Rightarrow> trail_file \<Rightarrow> bitbuf
    \<Rightarrow> error + (nat \<times> trail_file)" where
  "encode_loop tdb_item_field gram_code items num_events num_fields i ev grouped file_offs out buf =
     (if i < num_events then
        (case encode_cookie tdb_item_field gram_code items num_events (cookie_id ev)
                i ev grouped (replicate (unat (num_fields * 4) div 4) 0) buf 3 of
           Inl e \<Rightarrow> Inl e
         | Inr (i', ev', grouped', buf', offs) \<Rightarrow>
             (let trail_size = fst (length_residual buf' offs);
                  buf'' = snd (length_residual buf' offs);
                  out' = (file_offs, buf_bytes buf'' trail_size)
                           # (unat (cookie_id ev * 4), le32 file_offs) # out
              in if UINT32_MAX \<le> file_offs + trail_size then Inl Trail_over_4GB
                 else encode_loop tdb_item_field gram_code items num_events num_fields
                        i' ev' grouped' (file_offs + trail_size) out'
                        (memset_zero buf'' trail_size)))
      else Inr (file_offs, out))"
  by pat_completeness auto
termination
  apply (relation "measure (\<lambda>(f, g, items, num_events, nf, i, r). num_events - i)")
   apply simp
  apply (auto dest: encode_cookie_progress)
  done

declare encode_loop.simps [simp del]

text \<open>
  \<open>encode_trails\<close>: the offset of the first trail is the size of the table of
  contents, \<open>(num_cookies + 1) * 4\<close> in \<open>uint64_t\<close>. The first record is read before
  the loop; when the intermediate file is empty the record is not initialised, and a run
  of the loop on it is a \<open>Fault\<close>. After the loop the final offset goes into slot
  \<open>num_cookies\<close>.
\<close>

definition encode_trails ::
  "(tdb_item \<Rightarrow> nat) \<Rightarrow> (tdb_cookie_event \<Rightarrow> tdb_item list \<Rightarrow> bool list) \<Rightarrow> tdb_item list
    \<Rightarrow> tdb_cookie_event list \<Rightarrow> nat \<Rightarrow> 64 word \<Rightarrow> 32 word \<Rightarrow> error + trail_file" where
  "encode_trails tdb_item_field gram_code items grouped num_events num_cookies num_fields =
     (let file_offs = unat ((num_cookies + 1) * 4) in
      if UINT32_MAX \<le> file_offs then Inl Trail_over_4GB
      else
        (case (case grouped of
                 [] \<Rightarrow> if 0 < num_events then Inl Fault else Inr (file_offs, [])
               | ev # rest \<Rightarrow>
                   encode_loop tdb_item_field gram_code items num_events num_fields
                     0 ev rest file_offs [] zero_buf) of
           Inl e \<Rightarrow> Inl e
         | Inr (file_offs', out) \<Rightarrow> Inr ((unat (num_cookies * 4), le32 file_offs') # out)))"

section \<open>tdb\_encode\<close>

text \<open>
  The steps of \<open>tdb_encode\<close> that the sources hold: the range scan, the grouping with
  the smallest timestamp as base, the info file, the trail file. The result is the
  content of the info file, when the run gets as far as writing it, and the trail file or
  the error that ends the run.
\<close>

definition tdb_encode ::
  "(tdb_item \<Rightarrow> nat) \<Rightarrow> (tdb_cookie_event \<Rightarrow> tdb_item list \<Rightarrow> bool list)
    \<Rightarrow> 64 word list \<Rightarrow> tdb_event list \<Rightarrow> tdb_item list \<Rightarrow> 32 word
    \<Rightarrow> string option \<times> (error + trail_file)" where
  "tdb_encode tdb_item_field gram_code cookie_pointers events items num_fields =
     (case timestamp_range events of
        (min_timestamp, max_timestamp) \<Rightarrow>
          (case group_events events cookie_pointers min_timestamp of
             Inl e \<Rightarrow> (None, Inl e)
           | Inr (grouped, max_timestamp_delta) \<Rightarrow>
               (Some (store_info (length events) (length cookie_pointers)
                        min_timestamp max_timestamp max_timestamp_delta),
                encode_trails tdb_item_field gram_code items grouped
                  (length events) (of_nat (length cookie_pointers)) num_fields)))"

section \<open>Notions used to state the properties\<close>

text \<open>
  The decoder of the delta encoding, as the specification describes it: the reference
  starts at the base timestamp, a record whose low 8 bits are zero adds its upper 24 bits
  to the reference and yields the new reference, any other record yields nothing and
  leaves the reference alone.
\<close>

fun delta_decode :: "32 word \<Rightarrow> tdb_cookie_event list \<Rightarrow> 32 word option list" where
  "delta_decode reference [] = []"
| "delta_decode reference (r # rs) =
     (if c_timestamp r AND 255 = 0 then
        (let t = reference + drop_bit 8 (c_timestamp r) in Some t # delta_decode t rs)
      else None # delta_decode reference rs)"

text \<open>
  The last valid reference after a sequence of records with their original timestamps:
  the timestamp of the last record that was within \<open>2^24\<close> of the reference before it.
\<close>

definition last_valid_reference :: "32 word \<Rightarrow> tdb_cookie_event list \<Rightarrow> 32 word" where
  "last_valid_reference base_timestamp bs =
     foldl (\<lambda>reference b. if c_timestamp b - reference < 2 ^ 24 then c_timestamp b else reference)
       base_timestamp bs"

text \<open>
  The last-seen value of a field after the items \<open>xs\<close>: the latest of them with that
  field, and the entry of the table when there is none. The changed items of \<open>xs\<close>
  are those that differ from the last-seen value of their field at the moment they come.
\<close>

definition last_seen ::
  "(tdb_item \<Rightarrow> nat) \<Rightarrow> tdb_item list \<Rightarrow> tdb_item list \<Rightarrow> nat \<Rightarrow> tdb_item" where
  "last_seen tdb_item_field prev_items xs field =
     (case find (\<lambda>x. tdb_item_field x = field) (rev xs) of
        None \<Rightarrow> prev_items ! field
      | Some x \<Rightarrow> x)"

definition changed_items ::
  "(tdb_item \<Rightarrow> nat) \<Rightarrow> tdb_item list \<Rightarrow> tdb_item list \<Rightarrow> tdb_item list" where
  "changed_items tdb_item_field prev_items xs =
     concat (map (\<lambda>k. if xs ! k \<noteq> last_seen tdb_item_field prev_items (take k xs)
                                     (tdb_item_field (xs ! k))
                        then [xs ! k] else [])
               [0..<length xs])"

text \<open>
  The scenario of the specification: one cookie with three events at the timestamps 100,
  100 and 500, linked from the latest back to the first, the base timestamp 100. An item
  keeps its field in its low byte; the three events carry the items \<open>A=1\<close>, \<open>A=1\<close>
  and \<open>A=2\<close> of field 1.
\<close>

definition scenario_events :: "tdb_event list" where
  "scenario_events =
     [\<lparr>timestamp = 100, item_zero = 0, num_items = 1, prev_event_idx = 0\<rparr>,
      \<lparr>timestamp = 100, item_zero = 1, num_items = 1, prev_event_idx = 1\<rparr>,
      \<lparr>timestamp = 500, item_zero = 2, num_items = 1, prev_event_idx = 2\<rparr>]"

definition scenario_buf :: "tdb_cookie_event list" where
  "scenario_buf =
     [\<lparr>cookie_id = 0, c_item_zero = 2, c_num_items = 1, c_timestamp = 500\<rparr>,
      \<lparr>cookie_id = 0, c_item_zero = 1, c_num_items = 1, c_timestamp = 100\<rparr>,
      \<lparr>cookie_id = 0, c_item_zero = 0, c_num_items = 1, c_timestamp = 100\<rparr>]"

definition scenario_run :: "tdb_cookie_event list" where
  "scenario_run =
     [\<lparr>cookie_id = 0, c_item_zero = 1, c_num_items = 1, c_timestamp = 0\<rparr>,
      \<lparr>cookie_id = 0, c_item_zero = 0, c_num_items = 1, c_timestamp = 0\<rparr>,
      \<lparr>cookie_id = 0, c_item_zero = 2, c_num_items = 1, c_timestamp = 102400\<rparr>]"

definition scenario_items :: "tdb_item list" where
  "scenario_items = [257, 257, 513]"

definition low_byte_field :: "tdb_item \<Rightarrow> nat" where
  "low_byte_field x = unat (x AND 255)"

text \<open>
  The deltas of the valid records of a grouped stream, and the reading of an unsigned
  decimal numeral.
\<close>

definition valid_deltas :: "tdb_cookie_event list \<Rightarrow> 32 word list" where
  "valid_deltas rs =
     map (\<lambda>r. drop_bit 8 (c_timestamp r)) (filter (\<lambda>r. c_timestamp r AND 255 = 0) rs)"

definition decimal_value :: "string \<Rightarrow> nat" where
  "decimal_value cs = foldl (\<lambda>a c. 10 * a + (of_char c - 48)) 0 cs"

text \<open>
  An input for the ratio test on invalid timestamps: 200 cookies with one event each, 199 of
  them at timestamp 0 and one at timestamp \<open>2^24\<close>, which is one second too far from
  the base timestamp 0.
\<close>

definition ratio_events :: "tdb_event list" where
  "ratio_events =
     replicate 199 \<lparr>timestamp = 0, item_zero = 0, num_items = 0, prev_event_idx = 0\<rparr> @
     [\<lparr>timestamp = 16777216, item_zero = 0, num_items = 0, prev_event_idx = 0\<rparr>]"

definition ratio_pointers :: "64 word list" where
  "ratio_pointers = map of_nat [0..<200]"

text \<open>
  The body of the inner loop, applied to the events of one cookie in turn: the edge
  encoding threads the last-seen table, the entropy coder threads the buffer and the bit
  offset.
\<close>

fun encode_events ::
  "(tdb_item \<Rightarrow> nat) \<Rightarrow> (tdb_cookie_event \<Rightarrow> tdb_item list \<Rightarrow> bool list) \<Rightarrow> tdb_item list
    \<Rightarrow> tdb_cookie_event list \<Rightarrow> tdb_item list \<Rightarrow> bitbuf \<Rightarrow> nat \<Rightarrow> error + (bitbuf \<times> nat)" where
  "encode_events tdb_item_field gram_code items [] prev_items buf offs = Inr (buf, offs)"
| "encode_events tdb_item_field gram_code items (ev # evs) prev_items buf offs =
     (case edge_encode_items tdb_item_field items prev_items ev of
        Inl e \<Rightarrow> Inl e
      | Inr (encoded, prev_items') \<Rightarrow>
          (case huff_encode_grams (gram_code ev encoded) buf offs of
             Inl e \<Rightarrow> Inl e
           | Inr (buf', offs') \<Rightarrow>
               encode_events tdb_item_field gram_code items evs prev_items' buf' offs'))"

text \<open>
  The bits of the trail of one cookie: its events encoded from a table of zeros, a zeroed
  buffer and the bit offset 3. The trail of the cookie is the bytes of that buffer after
  the length residual has been written.
\<close>

definition cookie_bits ::
  "(tdb_item \<Rightarrow> nat) \<Rightarrow> (tdb_cookie_event \<Rightarrow> tdb_item list \<Rightarrow> bool list) \<Rightarrow> tdb_item list
    \<Rightarrow> 32 word \<Rightarrow> tdb_cookie_event list \<Rightarrow> error + (bitbuf \<times> nat)" where
  "cookie_bits tdb_item_field gram_code items num_fields run =
     encode_events tdb_item_field gram_code items run
       (replicate (unat (num_fields * 4) div 4) 0) zero_buf 3"

definition cookie_trail ::
  "(tdb_item \<Rightarrow> nat) \<Rightarrow> (tdb_cookie_event \<Rightarrow> tdb_item list \<Rightarrow> bool list) \<Rightarrow> tdb_item list
    \<Rightarrow> 32 word \<Rightarrow> tdb_cookie_event list \<Rightarrow> error + 8 word list" where
  "cookie_trail tdb_item_field gram_code items num_fields run =
     (case cookie_bits tdb_item_field gram_code items num_fields run of
        Inl e \<Rightarrow> Inl e
      | Inr (buf, offs) \<Rightarrow>
          Inr (buf_bytes (snd (length_residual buf offs)) (fst (length_residual buf offs))))"

text \<open>
  The outer loop, told run by run: the slot of the run's cookie gets the current offset,
  the trail of the run is appended there, the offset advances and is checked.
\<close>

fun write_trails ::
  "(tdb_item \<Rightarrow> nat) \<Rightarrow> (tdb_cookie_event \<Rightarrow> tdb_item list \<Rightarrow> bool list) \<Rightarrow> tdb_item list
    \<Rightarrow> 32 word \<Rightarrow> tdb_cookie_event list list \<Rightarrow> nat \<Rightarrow> trail_file
    \<Rightarrow> error + (nat \<times> trail_file)" where
  "write_trails tdb_item_field gram_code items num_fields [] file_offs out = Inr (file_offs, out)"
| "write_trails tdb_item_field gram_code items num_fields (run # runs) file_offs out =
     (case cookie_trail tdb_item_field gram_code items num_fields run of
        Inl e \<Rightarrow> Inl e
      | Inr trail \<Rightarrow>
          if UINT32_MAX \<le> file_offs + length trail then Inl Trail_over_4GB
          else write_trails tdb_item_field gram_code items num_fields runs
                 (file_offs + length trail)
                 ((file_offs, trail) # (unat (cookie_id (hd run) * 4), le32 file_offs) # out))"

text \<open>
  A write is apart from a range of the file when the two do not overlap. The writes of a
  file are disjoint when each is apart from all the others.
\<close>

definition apart :: "nat \<Rightarrow> nat \<Rightarrow> nat \<times> 8 word list \<Rightarrow> bool" where
  "apart pos len w \<longleftrightarrow> pos + len \<le> fst w \<or> fst w + length (snd w) \<le> pos"

fun disjoint_writes :: "trail_file \<Rightarrow> bool" where
  "disjoint_writes [] = True"
| "disjoint_writes (w # out) =
     ((\<forall>w'\<in>set out. apart (fst w) (length (snd w)) w') \<and> disjoint_writes out)"

text \<open>
  The writes of the outer loop for the trails \<open>ts\<close> of the cookies \<open>c\<close>,
  \<open>c + 1\<close>, ..., the first trail at \<open>file_offs\<close>, the latest write first.
\<close>

fun trail_log :: "nat \<Rightarrow> 8 word list list \<Rightarrow> nat \<Rightarrow> trail_file" where
  "trail_log c [] file_offs = []"
| "trail_log c (t # ts) file_offs =
     trail_log (Suc c) ts (file_offs + length t) @ [(file_offs, t), (4 * c, le32 file_offs)]"

text \<open>
  Reading the trail file: a little-endian 32-bit number at a position, entry \<open>k\<close> of the
  table of contents (the number at position \<open>4 * k\<close>), a range of bytes, and the number
  of writes that touch slot \<open>k\<close> of the table of contents.
\<close>

definition read_le32 :: "trail_file \<Rightarrow> nat \<Rightarrow> nat" where
  "read_le32 out pos = (\<Sum>b\<leftarrow>[0..<4]. unat (file_byte out (pos + b)) * 256 ^ b)"

definition toc :: "trail_file \<Rightarrow> nat \<Rightarrow> nat" where
  "toc out k = read_le32 out (4 * k)"

definition file_bytes :: "trail_file \<Rightarrow> nat \<Rightarrow> nat \<Rightarrow> 8 word list" where
  "file_bytes out pos len = map (\<lambda>j. file_byte out (pos + j)) [0..<len]"

definition slot_writes :: "trail_file \<Rightarrow> nat \<Rightarrow> nat" where
  "slot_writes out k = length (filter (\<lambda>w. \<not> apart (4 * k) 4 w) out)"

text \<open>
  The run of cookie \<open>k\<close> in a grouped stream is the records with that cookie id, in
  stream order. A stream is grouped by cookie for \<open>n\<close> cookies when it is the runs of
  the cookies \<open>0\<close>, ..., \<open>n - 1\<close> one after the other and none of them is empty;
  \<open>n\<close> is below \<open>2^61\<close>, as the length of an array of 8-byte pointers is. The offset
  of trail \<open>k\<close> behind a table of contents of \<open>n + 1\<close> entries is the size of the
  table plus the lengths of the trails before it.
\<close>

definition cookie_run :: "tdb_cookie_event list \<Rightarrow> nat \<Rightarrow> tdb_cookie_event list" where
  "cookie_run grouped k = filter (\<lambda>r. cookie_id r = of_nat k) grouped"

definition grouped_by_cookie :: "nat \<Rightarrow> tdb_cookie_event list \<Rightarrow> bool" where
  "grouped_by_cookie n grouped \<longleftrightarrow>
     n < 2 ^ 61 \<and>
     grouped = concat (map (cookie_run grouped) [0..<n]) \<and>
     (\<forall>k<n. cookie_run grouped k \<noteq> [])"

definition trail_offset :: "nat \<Rightarrow> 8 word list list \<Rightarrow> nat \<Rightarrow> nat" where
  "trail_offset n ts k = 4 * (n + 1) + sum_list (map length (take k ts))"

text \<open>
  A stand-in for the entropy coder in examples: one set bit for each edge-encoded item of
  the event.
\<close>

definition one_bit_per_item :: "tdb_cookie_event \<Rightarrow> tdb_item list \<Rightarrow> bool list" where
  "one_bit_per_item ev encoded = map (\<lambda>x. True) encoded"

text \<open>
  The trail file of the scenario: a table of contents of two entries, 8 and 9, and the
  one-byte trail 27 of cookie 0 (residual 3 in the low bits, the code bits 3 and 4 set).
\<close>

definition scenario_out :: trail_file where
  "scenario_out = [(4, le32 9), (8, [27]), (0, le32 8)]"

text \<open>
  A stream of \<open>n\<close> cookies with one record without items each, a coder that produces 16
  bits for every event, and a second stream for the scenario: the run of cookie 0 of the
  scenario followed by a cookie 1 whose only event carries the item \<open>A=2\<close>, the value
  that cookie 0 has seen last.
\<close>

definition lone_event :: "nat \<Rightarrow> tdb_cookie_event" where
  "lone_event k = \<lparr>cookie_id = of_nat k, c_item_zero = 0, c_num_items = 0, c_timestamp = 0\<rparr>"

definition lone_events :: "nat \<Rightarrow> tdb_cookie_event list" where
  "lone_events n = concat (map (\<lambda>k. [lone_event k]) [0..<n])"

definition sixteen_bits :: "tdb_cookie_event \<Rightarrow> tdb_item list \<Rightarrow> bool list" where
  "sixteen_bits ev encoded = replicate 16 True"

definition isolation_run :: "tdb_cookie_event list" where
  "isolation_run = [\<lparr>cookie_id = 1, c_item_zero = 2, c_num_items = 1, c_timestamp = 0\<rparr>]"

definition isolation_out :: trail_file where
  "isolation_out = [(8, le32 14), (13, [12]), (4, le32 13), (12, [27]), (0, le32 12)]"

text \<open>
  A third stream: the same cookie 1 behind another cookie 0, whose only event carries the
  item \<open>A=1\<close>, so that the two cookies 0 leave different last-seen values and different
  bits behind them.
\<close>

definition isolation_first :: "tdb_cookie_event list" where
  "isolation_first = [\<lparr>cookie_id = 0, c_item_zero = 0, c_num_items = 1, c_timestamp = 0\<rparr>]"

definition isolation_out_first :: trail_file where
  "isolation_out_first = [(8, le32 14), (13, [12]), (4, le32 13), (12, [12]), (0, le32 12)]"

section \<open>Delta encoding of timestamps\<close>

lemma push8_and255: "push_bit 8 (d::32 word) AND 255 = 0"
proof -
  have "push_bit 8 d AND (mask 8 :: 32 word) = 0"
    by (simp add: take_bit_push_bit flip: take_bit_eq_mask)
  then show ?thesis by (simp add: mask_eq_exp_minus_1)
qed

lemma push8_drop8: "(d::32 word) < 2 ^ 24 \<Longrightarrow> drop_bit 8 (push_bit 8 d :: 32 word) = d"
proof -
  assume "d < 2 ^ 24"
  then have d: "take_bit 24 d = d" by (simp add: less_mask_eq take_bit_eq_mask)
  show ?thesis
  proof (rule bit_word_eqI)
    fix n assume "n < LENGTH(32)"
    have "bit d n \<Longrightarrow> n < 24" using d by (metis bit_take_bit_iff)
    then show "bit (drop_bit 8 (push_bit 8 d :: 32 word)) n = bit d n"
      by (auto simp: bit_simps)
  qed
qed

lemma fst_delta_encode_Cons:
  "fst (delta_encode p (b # bs) m n) =
     (if c_timestamp b - p < 2 ^ 24
      then b\<lparr>c_timestamp := push_bit 8 (c_timestamp b - p)\<rparr>
             # fst (delta_encode (c_timestamp b) bs
                 (if c_timestamp b - p > m then c_timestamp b - p else m) n)
      else b\<lparr>c_timestamp := 1\<rparr> # fst (delta_encode p bs m (n + 1)))"
  by (simp add: Let_def split_beta)

lemma length_delta_encode: "length (fst (delta_encode p bs m n)) = length bs"
  by (induction bs arbitrary: p m n)
     (simp_all add: fst_delta_encode_Cons del: delta_encode.simps(2))

lemma delta_decode_encode:
  "delta_decode p (fst (delta_encode p bs m n)) =
     map (\<lambda>(b, r). if c_timestamp r AND 255 = 0 then Some (c_timestamp b) else None)
       (zip bs (fst (delta_encode p bs m n)))"
  by (induction bs arbitrary: p m n)
     (simp_all add: fst_delta_encode_Cons push8_and255 push8_drop8 Let_def
        del: delta_encode.simps(2))

lemma last_valid_reference_Cons:
  "last_valid_reference p (b # bs) =
     last_valid_reference (if c_timestamp b - p < 2 ^ 24 then c_timestamp b else p) bs"
  by (simp add: last_valid_reference_def)

lemma last_valid_reference_Nil: "last_valid_reference p [] = p"
  by (simp add: last_valid_reference_def)

lemma last_valid_reference_snoc:
  "last_valid_reference p (bs @ [b]) =
     (if c_timestamp b - last_valid_reference p bs < 2 ^ 24 then c_timestamp b
      else last_valid_reference p bs)"
  by (simp add: last_valid_reference_def)

lemma delta_encode_nth:
  "j < length bs \<Longrightarrow>
   fst (delta_encode p bs m n) ! j =
     (if c_timestamp (bs ! j) - last_valid_reference p (take j bs) < 2 ^ 24
      then (bs ! j)\<lparr>c_timestamp :=
              push_bit 8 (c_timestamp (bs ! j) - last_valid_reference p (take j bs))\<rparr>
      else (bs ! j)\<lparr>c_timestamp := 1\<rparr>)"
proof (induction bs arbitrary: j p m n)
  case Nil
  then show ?case by simp
next
  case (Cons b bs)
  show ?case
  proof (cases j)
    case 0
    then show ?thesis
      by (simp add: fst_delta_encode_Cons last_valid_reference_Nil del: delta_encode.simps)
  next
    case (Suc k)
    with Cons.prems have "k < length bs" by simp
    from Cons.IH [OF this] Suc show ?thesis
      by (simp add: fst_delta_encode_Cons last_valid_reference_Cons del: delta_encode.simps)
  qed
qed

lemma delta_decode_nth:
  "j < length bs \<Longrightarrow>
   delta_decode p (fst (delta_encode p bs m n)) ! j =
     (if c_timestamp (fst (delta_encode p bs m n) ! j) AND 255 = 0
      then Some (c_timestamp (bs ! j)) else None)"
  by (simp add: delta_decode_encode length_delta_encode)

lemma scenario_limit: "chain_limit scenario_events = 3"
  by (simp add: chain_limit_def scenario_events_def)

lemma scenario_follow:
  "follow_backlinks scenario_events 0 (chain_limit scenario_events) (unat (2::64 word))
     = Inr scenario_buf"
  unfolding scenario_limit by code_simp

lemma scenario_group: "group_cookie scenario_events 100 0 2 0 0 = Inr (scenario_run, 400, 0)"
  unfolding group_cookie_def scenario_follow by code_simp

text \<open>
  C3. A cookie's run has one record for each event of its chain, in the order of the
  sorted buffer. A record of the run is tagged valid exactly when its original timestamp
  is within \<open>2^24\<close> of the last valid reference before it, and then the decoder, started
  at the base timestamp, returns the original timestamp at that place.
\<close>

theorem delta_decode_round_trip:
  assumes "follow_backlinks events i (chain_limit events) (unat ptr) = Inr buf"
      and "group_cookie events base_timestamp i ptr m n = Inr (run, m', n')"
      and "j < length buf"
  shows "length run = length buf \<and>
         (c_timestamp (run ! j) AND 255 = 0 \<longleftrightarrow>
            c_timestamp (sort_key c_timestamp buf ! j)
              - last_valid_reference base_timestamp (take j (sort_key c_timestamp buf)) < 2 ^ 24) \<and>
         (c_timestamp (run ! j) AND 255 = 0 \<longrightarrow>
            delta_decode base_timestamp run ! j = Some (c_timestamp (sort_key c_timestamp buf ! j)))"
proof -
  let ?bs = "sort_key c_timestamp buf"
  from assms(1,2) have run: "run = fst (delta_encode base_timestamp ?bs m n)"
    by (simp add: group_cookie_def)
  have j: "j < length ?bs" using assms(3) by simp
  have one: "(1::32 word) AND 255 \<noteq> 0" by simp
  show ?thesis
    unfolding run using j one
    by (simp add: length_delta_encode delta_decode_nth delta_encode_nth push8_and255)
qed

theorem delta_decode_round_trip_witness:
  "length scenario_run = 3 \<and> c_timestamp (scenario_run ! 2) AND 255 = 0 \<and>
   delta_decode 100 scenario_run ! 2 = Some 500"
  using delta_decode_round_trip [OF scenario_follow scenario_group, of 2]
  by (simp add: scenario_buf_def scenario_run_def)

text \<open>
  C4. A record whose delta from the last valid reference does not fit in 24 bits is stored
  with the timestamp 1, so its low 8 bits are not zero, and the reference after it is the
  reference before it; \<open>edge_encode_items\<close> returns no item for such a record and
  returns the last-seen table as it was.
\<close>

theorem invalid_record_sentinel:
  assumes "j < length bs"
      and "\<not> c_timestamp (bs ! j) - last_valid_reference p (take j bs) < 2 ^ 24"
  shows "c_timestamp (fst (delta_encode p bs m n) ! j) = 1 \<and>
         c_timestamp (fst (delta_encode p bs m n) ! j) AND 255 \<noteq> 0 \<and>
         last_valid_reference p (take (Suc j) bs) = last_valid_reference p (take j bs) \<and>
         edge_encode_items tdb_item_field items prev_items (fst (delta_encode p bs m n) ! j)
           = Inr ([], prev_items)"
  using assms
  by (simp add: delta_encode_nth take_Suc_conv_app_nth last_valid_reference_snoc
        edge_encode_items_def)

theorem invalid_record_sentinel_witness:
  "c_timestamp (fst (delta_encode 100 [\<lparr>cookie_id = 0, c_item_zero = 0, c_num_items = 1,
        c_timestamp = 16777316\<rparr>] 0 0) ! 0) = 1 \<and>
   edge_encode_items low_byte_field scenario_items [0, 0]
     (fst (delta_encode 100 [\<lparr>cookie_id = 0, c_item_zero = 0, c_num_items = 1,
        c_timestamp = 16777316\<rparr>] 0 0) ! 0) = Inr ([], [0, 0])"
  using invalid_record_sentinel [of 0
    "[\<lparr>cookie_id = 0, c_item_zero = 0, c_num_items = 1, c_timestamp = 16777316\<rparr>]" 100
    0 0 low_byte_field scenario_items "[0, 0]"]
  by (simp add: last_valid_reference_Nil)

section \<open>Edge encoding\<close>

lemma last_seen_Nil: "last_seen fld prev [] f = prev ! f"
  by (simp add: last_seen_def)

lemma last_seen_snoc:
  "last_seen fld prev (xs @ [x]) f = (if fld x = f then x else last_seen fld prev xs f)"
  by (simp add: last_seen_def)

lemma changed_items_Nil: "changed_items fld prev [] = []"
  by (simp add: changed_items_def)

lemma changed_items_snoc:
  "changed_items fld prev (xs @ [x]) =
     changed_items fld prev xs @ (if x \<noteq> last_seen fld prev xs (fld x) then [x] else [])"
proof -
  let ?g = "\<lambda>ys k. if ys ! k \<noteq> last_seen fld prev (take k ys) (fld (ys ! k))
                     then [ys ! k] else []"
  have a: "map (?g (xs @ [x])) [0..<length xs] = map (?g xs) [0..<length xs]"
    by (rule map_cong) (simp_all add: nth_append)
  have b: "?g (xs @ [x]) (length xs) = (if x \<noteq> last_seen fld prev xs (fld x) then [x] else [])"
    by simp
  have "changed_items fld prev (xs @ [x])
          = concat (map (?g (xs @ [x])) [0..<length xs]) @ ?g (xs @ [x]) (length xs)"
    unfolding changed_items_def by (simp del: take_append nth_append_length)
  also have "\<dots> = changed_items fld prev xs @ ?g (xs @ [x]) (length xs)"
    unfolding changed_items_def a ..
  finally show ?thesis unfolding b .
qed



lemma edge_buffer_entries_fit:
  "k * EDGE_INCREMENT \<le> edge_limit \<Longrightarrow>
   edge_buffer_entries (k * EDGE_INCREMENT) = k * EDGE_INCREMENT"
  by (simp add: edge_buffer_entries_def edge_limit_def EDGE_INCREMENT_def)

lemma edge_buffer_entries_wrap:
  "edge_buffer_entries (edge_limit + EDGE_INCREMENT) = 258176"
  by (simp add: edge_buffer_entries_def edge_limit_def EDGE_INCREMENT_def)



lemma last_seen_other:
  "f \<notin> fld ` set xs \<Longrightarrow> last_seen fld prev xs f = prev ! f"
  by (induction xs rule: rev_induct) (auto simp: last_seen_Nil last_seen_snoc)

text \<open>
  When the fields of the items are pairwise distinct, the changed items are those that
  differ from the table as it was before the event.
\<close>

lemma changed_items_distinct:
  "distinct (map fld xs) \<Longrightarrow> changed_items fld prev xs = filter (\<lambda>x. x \<noteq> prev ! fld x) xs"
  by (induction xs rule: rev_induct)
     (auto simp: changed_items_Nil changed_items_snoc last_seen_other)



section \<open>The info file\<close>

lemma Min_insert_insert:
  "finite S \<Longrightarrow> Min (insert (a::'a::linorder) (insert t S)) = Min (insert (min a t) S)"
  by (cases "S = {}") (simp_all add: min.assoc)

lemma Max_insert_insert:
  "finite S \<Longrightarrow> Max (insert (a::'a::linorder) (insert t S)) = Max (insert (max a t) S)"
  by (cases "S = {}") (simp_all add: max.assoc)

lemma timestamp_range_foldl:
  "foldl (\<lambda>(mn, mx) e. (if timestamp e < mn then timestamp e else mn,
                          if timestamp e > mx then timestamp e else mx)) (a, b) events
   = (Min (insert a (timestamp ` set events)), Max (insert b (timestamp ` set events)))"
proof (induction events arbitrary: a b)
  case Nil
  show ?case by simp
next
  case (Cons e es)
  have mn: "(if timestamp e < a then timestamp e else a) = min a (timestamp e)"
    by (auto simp: min_def)
  have mx: "(if b < timestamp e then timestamp e else b) = max b (timestamp e)"
    by (auto simp: max_def)
  show ?case
    by (simp add: Cons.IH mn mx Min_insert_insert Max_insert_insert del: Min_insert Max_insert)
qed

lemma timestamp_range_Min_Max:
  "timestamp_range events =
     (Min (insert (of_nat UINT32_MAX) (timestamp ` set events)),
      Max (insert 0 (timestamp ` set events)))"
  by (simp add: timestamp_range_def timestamp_range_foldl)

lemma valid_deltas_append: "valid_deltas (xs @ ys) = valid_deltas xs @ valid_deltas ys"
  by (simp add: valid_deltas_def)

lemma delta_encode_max:
  "delta_encode p bs m n = (out, m', n') \<Longrightarrow> m' = fold max (valid_deltas out) m"
proof (induction bs arbitrary: p m n out m' n')
  case Nil
  then show ?case by (simp add: valid_deltas_def)
next
  case (Cons b bs)
  show ?case
  proof (cases "c_timestamp b - p < 2 ^ 24")
    case True
    let ?d = "c_timestamp b - p"
    obtain o1 m1 n1 where r: "delta_encode (c_timestamp b) bs (if ?d > m then ?d else m) n = (o1, m1, n1)"
      by (metis prod_cases3)
    from Cons.prems True r have eq: "out = b\<lparr>c_timestamp := push_bit 8 ?d\<rparr> # o1" "m' = m1"
      by (simp_all add: Let_def)
    have mx: "(if m < ?d then ?d else m) = max ?d m"
      by (auto simp: max_def)
    from Cons.IH [OF r] have "m1 = fold max (valid_deltas o1) (max ?d m)"
      by (simp add: mx)
    then show ?thesis
      using True
      by (simp add: eq valid_deltas_def push8_and255 push8_drop8)
  next
    case False
    obtain o1 m1 n1 where r: "delta_encode p bs m (n + 1) = (o1, m1, n1)"
      by (metis prod_cases3)
    from Cons.prems False r have eq: "out = b\<lparr>c_timestamp := 1\<rparr> # o1" "m' = m1"
      by (simp_all add: Let_def)
    from Cons.IH [OF r] show ?thesis
      by (simp add: eq valid_deltas_def)
  qed
qed

lemma group_cookies_max:
  "group_cookies events base i ptrs m n = Inr (g, m', n') \<Longrightarrow>
   m' = fold max (valid_deltas g) m"
proof (induction ptrs arbitrary: i m n g m' n')
  case Nil
  then show ?case by (simp add: valid_deltas_def)
next
  case (Cons ptr ptrs)
  from Cons.prems obtain run m1 n1 rest where
    c: "group_cookie events base (of_nat i) ptr m n = Inr (run, m1, n1)"
    and r: "group_cookies events base (Suc i) ptrs m1 n1 = Inr (rest, m', n')"
    and g: "g = run @ rest"
    by (auto split: sum.splits)
  from c have "m1 = fold max (valid_deltas run) m"
    by (auto simp: group_cookie_def split: sum.splits dest: delta_encode_max)
  with Cons.IH [OF r] show ?case
    by (simp add: g valid_deltas_append)
qed

lemma group_events_max:
  "group_events events ptrs base = Inr (g, md) \<Longrightarrow>
   md = Max (insert 0 (set (valid_deltas g)))"
proof -
  assume "group_events events ptrs base = Inr (g, md)"
  then obtain n where "group_cookies events base 0 ptrs 0 0 = Inr (g, md, n)"
    by (auto simp: group_events_def split: sum.splits if_splits)
  from group_cookies_max [OF this] show ?thesis
    by (simp add: Max.set_eq_fold [symmetric])
qed

lemma decimal_digits: "set (decimal n) \<subseteq> set ''0123456789''"
proof (induction n rule: decimal.induct)
  case (1 n)
  have d: "\<And>k. k < 10 \<Longrightarrow> digit_char k \<in> set ''0123456789''"
  proof -
    fix k :: nat assume "k < 10"
    then show "digit_char k \<in> set ''0123456789''"
      unfolding digit_char_def by (intro nth_mem) simp
  qed
  show ?case
  proof (cases "n < 10")
    case True
    then show ?thesis by (subst decimal.simps) (use d in auto)
  next
    case False
    with 1 have "set (decimal (n div 10)) \<subseteq> set ''0123456789''" by simp
    moreover have "digit_char (n mod 10) \<in> set ''0123456789''" by (rule d) simp
    ultimately show ?thesis using False by (subst decimal.simps) auto
  qed
qed

lemma decimal_value_digit: "k < 10 \<Longrightarrow> of_char (digit_char k) - 48 = k"
proof -
  assume "k < 10"
  then have "k \<in> {0, 1, 2, 3, 4, 5, 6, 7, 8, 9}" by auto
  then show ?thesis by (auto simp: digit_char_def)
qed

lemma decimal_value_decimal: "decimal_value (decimal n) = n"
proof (induction n rule: decimal.induct)
  case (1 n)
  show ?case
  proof (cases "n < 10")
    case True
    then show ?thesis
      by (subst decimal.simps) (simp add: decimal_value_def decimal_value_digit)
  next
    case False
    with 1 have "decimal_value (decimal (n div 10)) = n div 10" by simp
    then show ?thesis using False
      by (subst decimal.simps) (simp add: decimal_value_def decimal_value_digit)
  qed
qed

lemma scenario_range: "timestamp_range scenario_events = (100, 500)"
  by (simp add: timestamp_range_def scenario_events_def UINT32_MAX_def)

lemma scenario_group_events: "group_events scenario_events [2] 100 = Inr (scenario_run, 400)"
  by (simp add: group_events_def scenario_group invalid_ratio_exceeded_def)

lemma scenario_info:
  "store_info (length scenario_events) (Suc 0) 100 500 400
     = ''1 3 100 500 400'' @ [CHR 0x0A]"
  by (simp add: store_info_def scenario_events_def decimal.simps digit_char_def)

text \<open>
  C8. When the run writes the info file, the grouping has succeeded, and the file is one
  line: the number of cookies, the number of events, the smallest and the largest
  timestamp of the event array as the range scan computes them, and the largest delta of
  a valid record of the grouped stream, in this order, separated by single spaces and
  ended by a newline. Each number is in unsigned decimal: its characters are digits and
  reading them back gives the number. The first two are the \<open>uint64_t\<close> counts, the
  other three are \<open>uint32_t\<close> values.
\<close>

theorem info_file_content:
  assumes "tdb_encode tdb_item_field gram_code cookie_pointers events items num_fields
             = (Some info, r)"
  shows "\<exists>grouped max_timestamp_delta.
           group_events events cookie_pointers (fst (timestamp_range events))
             = Inr (grouped, max_timestamp_delta) \<and>
           max_timestamp_delta = Max (insert 0 (set (valid_deltas grouped))) \<and>
           timestamp_range events =
             (Min (insert (of_nat UINT32_MAX) (timestamp ` set events)),
              Max (insert 0 (timestamp ` set events))) \<and>
           info = decimal (length cookie_pointers) @ '' '' @ decimal (length events) @ '' '' @
                  decimal (unat (fst (timestamp_range events))) @ '' '' @
                  decimal (unat (snd (timestamp_range events))) @ '' '' @
                  decimal (unat max_timestamp_delta) @ [CHR 0x0A] \<and>
           (\<forall>n. set (decimal n) \<subseteq> set ''0123456789'' \<and> decimal_value (decimal n) = n)"
proof -
  from assms obtain grouped md where
    g: "group_events events cookie_pointers (fst (timestamp_range events)) = Inr (grouped, md)"
    and i: "info = store_info (length events) (length cookie_pointers)
              (fst (timestamp_range events)) (snd (timestamp_range events)) md"
    by (auto simp: tdb_encode_def split: prod.splits sum.splits)
  show ?thesis
    using g i group_events_max [OF g] timestamp_range_Min_Max [of events]
      decimal_digits decimal_value_decimal
    by (auto simp: store_info_def)
qed

theorem info_file_content_witness:
  "fst (tdb_encode low_byte_field (\<lambda>ev encoded. []) [2] scenario_events scenario_items 2)
     = Some (''1 3 100 500 400'' @ [CHR 0x0A]) \<and>
   Max (insert 0 (set (valid_deltas scenario_run))) = 400"
proof -
  have e: "tdb_encode low_byte_field (\<lambda>ev encoded. []) [2] scenario_events scenario_items 2
             = (Some (''1 3 100 500 400'' @ [CHR 0x0A]),
                snd (tdb_encode low_byte_field (\<lambda>ev encoded. []) [2] scenario_events
                       scenario_items 2))"
    by (simp add: tdb_encode_def scenario_range scenario_group_events scenario_info)
  have f: "fst (tdb_encode low_byte_field (\<lambda>ev encoded. []) [2] scenario_events scenario_items 2)
             = Some (''1 3 100 500 400'' @ [CHR 0x0A])"
    by (subst e) simp
  from info_file_content [OF e] show ?thesis
    by (simp add: f scenario_range scenario_group_events)
qed

section \<open>The ratio test on invalid timestamps\<close>

lemma group_cookies_append:
  "group_cookies events base i (ptrs @ qtrs) m n =
     (case group_cookies events base i ptrs m n of
        Inl e \<Rightarrow> Inl e
      | Inr (g, m', n') \<Rightarrow>
          (case group_cookies events base (i + length ptrs) qtrs m' n' of
             Inl e \<Rightarrow> Inl e
           | Inr (g', m'', n'') \<Rightarrow> Inr (g @ g', m'', n'')))"
  by (induction ptrs arbitrary: i m n) (auto split: sum.splits)

lemma group_cookie_single:
  assumes "unat ptr < length events" and "prev_event_idx (events ! unat ptr) = 0"
  shows "group_cookie events base i ptr m n =
           Inr (delta_encode base
                  [\<lparr>cookie_id = i, c_item_zero = item_zero (events ! unat ptr),
                    c_num_items = num_items (events ! unat ptr),
                    c_timestamp = timestamp (events ! unat ptr)\<rparr>] m n)"
proof -
  from assms(1) have "0 < chain_limit events" by (auto simp: chain_limit_def)
  then obtain fuel where "chain_limit events = Suc fuel" by (cases "chain_limit events") auto
  then show ?thesis using assms by (simp add: group_cookie_def Let_def)
qed

lemma group_cookies_all_valid:
  assumes "\<forall>p\<in>set ptrs. unat p < length events \<and> prev_event_idx (events ! unat p) = 0 \<and>
             timestamp (events ! unat p) = base"
  shows "\<exists>g. group_cookies events base i ptrs 0 n = Inr (g, 0, n) \<and> length g = length ptrs"
  using assms
proof (induction ptrs arbitrary: i)
  case Nil
  show ?case by simp
next
  case (Cons p ptrs)
  then obtain g where g: "group_cookies events base (Suc i) ptrs 0 n = Inr (g, 0, n)"
    "length g = length ptrs"
    by auto
  from Cons.prems have p: "unat p < length events" "prev_event_idx (events ! unat p) = 0"
    "timestamp (events ! unat p) = base"
    by simp_all
  show ?case
    by (simp add: group_cookie_single [OF p(1,2)] p(3) g)
qed

lemma ratio_first:
  "\<exists>g. group_cookies ratio_events 0 0 (map of_nat [0..<199]) 0 0 = Inr (g, 0, 0) \<and> length g = 199"
proof -
  have "\<forall>p\<in>set (map of_nat [0..<199] :: 64 word list).
          unat p < length ratio_events \<and> prev_event_idx (ratio_events ! unat p) = 0 \<and>
          timestamp (ratio_events ! unat p) = 0"
    by (auto simp: ratio_events_def unat_of_nat nth_append)
  from group_cookies_all_valid [OF this, of 0 0] show ?thesis by simp
qed

lemma ratio_last:
  "group_cookie ratio_events 0 199 199 0 0 =
     Inr ([\<lparr>cookie_id = 199, c_item_zero = 0, c_num_items = 0, c_timestamp = 1\<rparr>], 0, 1)"
proof -
  have n: "ratio_events ! 199 = \<lparr>timestamp = 16777216, item_zero = 0, num_items = 0, prev_event_idx = 0\<rparr>"
    by (simp add: ratio_events_def nth_append)
  have "unat (199 :: 64 word) < length ratio_events" "prev_event_idx (ratio_events ! unat (199 :: 64 word)) = 0"
    by (simp_all add: n) (simp add: ratio_events_def)
  from group_cookie_single [OF this] show ?thesis by (simp add: n)
qed

lemma ratio_count:
  "\<exists>g m. group_cookies ratio_events 0 0 ratio_pointers 0 0 = Inr (g, m, 1) \<and> length g = 200"
proof -
  have "[0..<200::nat] = [0..<Suc 199]" by simp
  then have s: "ratio_pointers = map of_nat [0..<199] @ [199]"
    unfolding ratio_pointers_def by (simp only: upt_Suc_append) simp
  from ratio_first obtain g where
    g: "group_cookies ratio_events 0 0 (map of_nat [0..<199]) 0 0 = Inr (g, 0, 0)" "length g = 199"
    by auto
  show ?thesis
    unfolding s by (simp add: group_cookies_append g ratio_last)
qed

lemma ratio_range: "timestamp_range ratio_events = (0, 16777216)"
proof -
  have "timestamp ` set ratio_events = {0, 16777216}"
    by (auto simp: ratio_events_def)
  then show ?thesis
    by (simp add: timestamp_range_Min_Max UINT32_MAX_def)
qed

text \<open>
  C1. The ratio test does not compare the number of invalid records with the number of
  processed records: its divisor \<open>idx\<close> is always 0. On the input above one record
  of 200 is invalid, a ratio of exactly 0.005, which the comparison with the number of
  records does not count as exceeded; the run aborts all the same, before the info file
  and the trail file are written.
\<close>

theorem invalid_ratio_failing_input:
  "\<exists>grouped m. group_cookies ratio_events 0 0 ratio_pointers 0 0 = Inr (grouped, m, 1) \<and>
      length grouped = 200 \<and>
      \<not> invalid_ratio_exceeded 1 (length grouped) \<and>
      tdb_encode low_byte_field (\<lambda>ev encoded. []) ratio_pointers ratio_events [] 0
        = (None, Inl Too_many_invalid)"
proof -
  from ratio_count obtain g m where
    g: "group_cookies ratio_events 0 0 ratio_pointers 0 0 = Inr (g, m, 1)" "length g = 200"
    by auto
  have "group_events ratio_events ratio_pointers 0 = Inl Too_many_invalid"
    by (simp add: group_events_def g invalid_ratio_exceeded_def)
  then have "tdb_encode low_byte_field (\<lambda>ev encoded. []) ratio_pointers ratio_events [] 0
        = (None, Inl Too_many_invalid)"
    by (simp add: tdb_encode_def ratio_range)
  with g show ?thesis
    by (auto simp: invalid_ratio_exceeded_def)
qed

section \<open>Runs of the grouped stream and the trail of one cookie\<close>

lemma encode_cookie_run:
  assumes "run \<noteq> []"
      and "ev # grouped = run @ rest"
      and "\<forall>r\<in>set run. cookie_id r = cid"
      and "rest \<noteq> [] \<longrightarrow> cookie_id (hd rest) \<noteq> cid"
      and "i + length run + length rest = num_events"
  shows "encode_cookie f g items num_events cid i ev grouped prev buf offs =
           (case encode_events f g items run prev buf offs of
              Inl e \<Rightarrow> Inl e
            | Inr (buf', offs') \<Rightarrow>
                Inr (i + length run, (if rest = [] then last run else hd rest), tl rest,
                     buf', offs'))"
  using assms
proof (induction run arbitrary: i ev grouped prev buf offs)
  case Nil
  then show ?case by simp
next
  case (Cons r run')
  from Cons.prems have ev: "ev = r" and grouped: "grouped = run' @ rest"
    and cid: "cookie_id ev = cid" and i: "i < num_events"
    by auto
  show ?case
  proof (cases "edge_encode_items f items prev ev")
    case (Inl e)
    then show ?thesis using ev cid i by (subst encode_cookie.simps) simp
  next
    case (Inr ep)
    obtain encoded prev' where ep: "ep = (encoded, prev')" by (cases ep)
    show ?thesis
    proof (cases "huff_encode_grams (g ev encoded) buf offs")
      case (Inl e)
      then show ?thesis using ev cid i Inr ep by (subst encode_cookie.simps) simp
    next
      case (Inr bo)
      obtain buf' offs' where bo: "bo = (buf', offs')" by (cases bo)
      have step: "encode_cookie f g items num_events cid i ev grouped prev buf offs =
                    encode_cookie f g items num_events cid (i + 1) (fst (fread ev grouped))
                      (snd (fread ev grouped)) prev' buf' offs'"
        using cid i \<open>edge_encode_items f items prev ev = Inr ep\<close> ep Inr bo
        by (subst encode_cookie.simps) simp
      have ev_simp: "encode_events f g items (r # run') prev buf offs =
                       encode_events f g items run' prev' buf' offs'"
        using \<open>edge_encode_items f items prev ev = Inr ep\<close> ep Inr bo ev by simp
      show ?thesis
      proof (cases run')
        case Nil
        show ?thesis
        proof (cases rest)
          case Nil
          with \<open>run' = []\<close> Cons.prems grouped have "i + 1 = num_events" "grouped = []" by auto
          then show ?thesis
            unfolding step ev_simp
            using \<open>run' = []\<close> Nil ev
            by (subst encode_cookie.simps) (simp add: fread_def)
        next
          case (Cons x xs)
          with \<open>run' = []\<close> Cons.prems grouped have "i + 1 < num_events" "grouped = x # xs"
            "cookie_id x \<noteq> cid" by auto
          then show ?thesis
            unfolding step ev_simp
            using \<open>run' = []\<close> Cons ev
            by (subst encode_cookie.simps) (simp add: fread_def)
        qed
      next
        case (Cons r' run'')
        then have ne: "run' \<noteq> []" by simp
        have fr: "fread ev grouped = (hd run', tl run' @ rest)"
          using grouped ne by (cases run') (simp_all add: fread_def)
        have IH: "encode_cookie f g items num_events cid (i + 1) (hd run') (tl run' @ rest)
                    prev' buf' offs' =
           (case encode_events f g items run' prev' buf' offs' of
              Inl e \<Rightarrow> Inl e
            | Inr (buf', offs') \<Rightarrow>
                Inr (i + 1 + length run', (if rest = [] then last run' else hd rest), tl rest,
                     buf', offs'))"
        proof (rule Cons.IH)
          show "run' \<noteq> []" by (rule ne)
          show "hd run' # tl run' @ rest = run' @ rest" using ne by simp
          show "\<forall>r\<in>set run'. cookie_id r = cid" using Cons.prems(3) by simp
          show "rest \<noteq> [] \<longrightarrow> cookie_id (hd rest) \<noteq> cid" by (rule Cons.prems(4))
          show "i + 1 + length run' + length rest = num_events" using Cons.prems(5) by simp
        qed
        show ?thesis
          unfolding step ev_simp fr fst_conv snd_conv IH using ne
          by (simp split: sum.splits)
      qed
    qed
  qed
qed

lemma huff_encode_grams_bits:
  assumes "huff_encode_grams code buf offs = Inr (buf', offs')"
  shows "offs' = offs + length code \<and> offs' < UINT32_MAX \<and>
         (\<forall>k. buf' k \<longrightarrow> buf k \<or> (offs \<le> k \<and> k < offs'))"
  using assms by (auto simp: huff_encode_grams_def split: if_splits)

lemma encode_events_bits:
  "encode_events f g items run prev buf offs = Inr (buf', offs') \<Longrightarrow>
   offs \<le> offs' \<and> (\<forall>k. buf' k \<longrightarrow> buf k \<or> (offs \<le> k \<and> k < offs'))"
proof (induction run arbitrary: prev buf offs)
  case Nil
  then show ?case by simp
next
  case (Cons ev evs)
  from Cons.prems obtain encoded prev1 buf1 offs1 where
    h: "huff_encode_grams (g ev encoded) buf offs = Inr (buf1, offs1)"
    and r: "encode_events f g items evs prev1 buf1 offs1 = Inr (buf', offs')"
    by (auto split: sum.splits)
  from huff_encode_grams_bits [OF h] Cons.IH [OF r] show ?case
    by (meson le_trans less_le_trans le_add1 order.trans not_less)
qed

lemma bit_small: "v < 8 \<Longrightarrow> bit (v::nat) k \<Longrightarrow> k < 3"
proof (rule ccontr)
  assume v: "v < 8" and b: "bit v k" and "\<not> k < 3"
  then have "3 \<le> k" by simp
  then have "(2::nat) ^ 3 \<le> 2 ^ k" by (intro power_increasing) simp_all
  with v have "v div 2 ^ k = 0" by simp
  with b show False by (simp add: bit_iff_odd)
qed

lemma length_residual_clear:
  assumes "\<forall>k. buf k \<longrightarrow> k < offs" and "3 \<le> offs"
  shows "memset_zero (snd (length_residual buf offs)) (fst (length_residual buf offs)) = zero_buf"
proof (rule ext)
  fix k
  show "memset_zero (snd (length_residual buf offs)) (fst (length_residual buf offs)) k = zero_buf k"
  proof (cases "offs mod 8 = 0")
    case True
    then have "8 * (offs div 8) = offs" by presburger
    with True assms show ?thesis
      by (auto simp: memset_zero_def length_residual_def zero_buf_def)
  next
    case False
    have "offs < 8 * (offs div 8 + 1)" by presburger
    moreover have "bit (8 - offs mod 8) k \<Longrightarrow> k < 3"
      using False bit_small [of "8 - offs mod 8" k] by simp
    ultimately show ?thesis
      using False assms
      by (auto simp: memset_zero_def length_residual_def zero_buf_def write_bits_def)
  qed
qed

lemma cookie_bits_clear:
  assumes "cookie_bits f g items nf run = Inr (buf, offs)"
  shows "memset_zero (snd (length_residual buf offs)) (fst (length_residual buf offs)) = zero_buf"
    and "3 \<le> offs"
proof -
  from encode_events_bits [OF assms [unfolded cookie_bits_def]]
  have "3 \<le> offs" "\<forall>k. buf k \<longrightarrow> k < offs"
    by (auto simp: zero_buf_def)
  then show "memset_zero (snd (length_residual buf offs)) (fst (length_residual buf offs)) = zero_buf"
    and "3 \<le> offs"
    by (simp_all add: length_residual_clear)
qed

lemma length_buf_bytes: "length (buf_bytes buf n) = n"
  by (simp add: buf_bytes_def)

lemma of_nat_Suc_neq: "(of_nat (Suc c) :: 64 word) \<noteq> of_nat c"
  by simp

lemma encode_loop_runs:
  assumes "runs \<noteq> []"
      and "ev # grouped = concat runs"
      and "\<forall>k<length runs. runs ! k \<noteq> [] \<and> (\<forall>r\<in>set (runs ! k). cookie_id r = of_nat (c + k))"
      and "i + length (concat runs) = num_events"
  shows "encode_loop f g items num_events nf i ev grouped file_offs out zero_buf =
           write_trails f g items nf runs file_offs out"
  using assms
proof (induction runs arbitrary: c i ev grouped file_offs out)
  case Nil
  then show ?case by simp
next
  case (Cons run runs')
  let ?rest = "concat runs'"
  from Cons.prems(3) [rule_format, of 0] have run: "run \<noteq> []"
    and ids: "\<forall>r\<in>set run. cookie_id r = of_nat c"
    by simp_all
  from Cons.prems(2) run have ev: "ev = hd run" and cat: "ev # grouped = run @ ?rest"
    by (cases run; simp)+
  from ev run ids have cid: "cookie_id ev = of_nat c" by simp
  have tail: "\<forall>k<length runs'. runs' ! k \<noteq> [] \<and>
                (\<forall>r\<in>set (runs' ! k). cookie_id r = of_nat (Suc c + k))"
    using Cons.prems(3) by (auto dest: spec [where x = "Suc k" for k])
  have rest_ne: "runs' \<noteq> [] \<Longrightarrow> ?rest \<noteq> [] \<and> cookie_id (hd ?rest) = of_nat (Suc c)"
  proof -
    assume "runs' \<noteq> []"
    then obtain r rs where rs: "runs' = r # rs" by (cases runs') auto
    with tail [rule_format, of 0] have "r \<noteq> []" "\<forall>x\<in>set r. cookie_id x = of_nat (Suc c)"
      by simp_all
    then show ?thesis using rs by (cases r) simp_all
  qed
  have rest_empty: "runs' = [] \<Longrightarrow> ?rest = []" by simp
  have diff: "?rest \<noteq> [] \<longrightarrow> cookie_id (hd ?rest) \<noteq> cookie_id ev"
    using rest_ne rest_empty cid of_nat_Suc_neq [of c] by (cases "runs' = []") auto
  have len: "i + length run + length ?rest = num_events"
    using Cons.prems(4) by simp
  have i: "i < num_events" using len run by (cases run) simp_all
  have inner: "encode_cookie f g items num_events (cookie_id ev) i ev grouped
                 (replicate (unat (nf * 4) div 4) 0) zero_buf 3 =
           (case cookie_bits f g items nf run of
              Inl e \<Rightarrow> Inl e
            | Inr (buf', offs') \<Rightarrow>
                Inr (i + length run, (if ?rest = [] then last run else hd ?rest), tl ?rest,
                     buf', offs'))"
    unfolding cookie_bits_def
    using run cat ids cid diff len by (intro encode_cookie_run) simp_all
  show ?case
  proof (cases "cookie_bits f g items nf run")
    case (Inl e)
    then show ?thesis
      using i inner by (subst encode_loop.simps) (simp add: cookie_trail_def)
  next
    case (Inr bo)
    obtain buf' offs where bo: "bo = (buf', offs)" by (cases bo)
    let ?trail_size = "fst (length_residual buf' offs)"
    let ?buf2 = "snd (length_residual buf' offs)"
    let ?out = "(file_offs, buf_bytes ?buf2 ?trail_size)
                  # (unat (cookie_id ev * 4), le32 file_offs) # out"
    have trail: "cookie_trail f g items nf run = Inr (buf_bytes ?buf2 ?trail_size)"
      using Inr bo by (simp add: cookie_trail_def)
    have clear: "memset_zero ?buf2 ?trail_size = zero_buf"
      using Inr bo by (intro cookie_bits_clear(1)) simp
    show ?thesis
    proof (cases "UINT32_MAX \<le> file_offs + ?trail_size")
      case True
      then show ?thesis
        using i inner Inr bo trail
        by (subst encode_loop.simps) (simp add: length_buf_bytes Let_def)
    next
      case False
      have step: "encode_loop f g items num_events nf i ev grouped file_offs out zero_buf =
                    encode_loop f g items num_events nf (i + length run)
                      (if ?rest = [] then last run else hd ?rest) (tl ?rest)
                      (file_offs + ?trail_size) ?out zero_buf"
        using i inner Inr bo False clear
        by (subst encode_loop.simps) (simp add: Let_def)
      have spec: "write_trails f g items nf (run # runs') file_offs out =
                    write_trails f g items nf runs' (file_offs + ?trail_size) ?out"
        using trail False ev by (simp add: length_buf_bytes)
      show ?thesis
      proof (cases "runs' = []")
        case True
        then have "i + length run = num_events" using len by simp
        then show ?thesis
          unfolding step spec using True
          by (subst encode_loop.simps) simp
      next
        case False
        with rest_ne have ne: "?rest \<noteq> []" by simp
        have "encode_loop f g items num_events nf (i + length run) (hd ?rest) (tl ?rest)
                (file_offs + ?trail_size) ?out zero_buf
              = write_trails f g items nf runs' (file_offs + ?trail_size) ?out"
        proof (rule Cons.IH)
          show "runs' \<noteq> []" by (rule False)
          show "hd ?rest # tl ?rest = ?rest" using ne by simp
          show "\<forall>k<length runs'. runs' ! k \<noteq> [] \<and>
                  (\<forall>r\<in>set (runs' ! k). cookie_id r = of_nat (Suc c + k))"
            by (rule tail)
          show "i + length run + length ?rest = num_events" by (rule len)
        qed
        then show ?thesis
          unfolding step spec if_not_P [OF ne] .
      qed
    qed
  qed
qed

section \<open>The writes to the trail file\<close>

lemma apart_sym:
  "apart (fst w) (length (snd w)) w' \<longleftrightarrow> apart (fst w') (length (snd w')) w"
  by (auto simp: apart_def)

lemma file_byte_member:
  "disjoint_writes out \<Longrightarrow> (pos, bytes) \<in> set out \<Longrightarrow> j < length bytes \<Longrightarrow>
   file_byte out (pos + j) = bytes ! j"
proof (induction out)
  case Nil
  then show ?case by simp
next
  case (Cons w out)
  obtain p bs where w: "w = (p, bs)" by (cases w)
  show ?case
  proof (cases "(pos, bytes) = w")
    case True
    with w Cons.prems(3) show ?thesis by auto
  next
    case False
    with Cons.prems have m: "(pos, bytes) \<in> set out" by simp
    with Cons.prems(1) have "apart p (length bs) (pos, bytes)" by (auto simp: w)
    then have "\<not> (p \<le> pos + j \<and> pos + j < p + length bs)"
      using Cons.prems(3) by (auto simp: apart_def)
    moreover from Cons.prems(1) have "disjoint_writes out" by simp
    ultimately show ?thesis using Cons.IH m Cons.prems(3) by (auto simp: w)
  qed
qed

lemma filter_member_once:
  "disjoint_writes out \<Longrightarrow> w \<in> set out \<Longrightarrow> snd w \<noteq> [] \<Longrightarrow>
   filter (\<lambda>w'. \<not> apart (fst w) (length (snd w)) w') out = [w]"
proof (induction out)
  case Nil
  then show ?case by simp
next
  case (Cons h out)
  show ?case
  proof (cases "h = w")
    case True
    have self: "\<not> apart (fst w) (length (snd w)) w"
      using Cons.prems(3) by (auto simp: apart_def)
    from Cons.prems(1) True have "\<forall>w'\<in>set out. apart (fst w) (length (snd w)) w'" by simp
    then have "filter (\<lambda>w'. \<not> apart (fst w) (length (snd w)) w') out = []"
      by (simp add: filter_empty_conv)
    with True self show ?thesis by simp
  next
    case False
    with Cons.prems have m: "w \<in> set out" by simp
    with Cons.prems(1) have "apart (fst h) (length (snd h)) w" by simp
    then have "apart (fst w) (length (snd w)) h" by (simp add: apart_sym)
    moreover from Cons.prems(1) have "disjoint_writes out" by simp
    ultimately show ?thesis using Cons.IH m Cons.prems(3) by simp
  qed
qed

lemma disjoint_writes_append:
  "disjoint_writes (xs @ ys) \<longleftrightarrow>
     disjoint_writes xs \<and> disjoint_writes ys \<and>
     (\<forall>w\<in>set xs. \<forall>w'\<in>set ys. apart (fst w) (length (snd w)) w')"
  by (induction xs) auto

lemma file_size_upper:
  "\<forall>w\<in>set out. fst w + length (snd w) \<le> b \<Longrightarrow> file_size out \<le> b"
  by (induction out) auto

lemma file_size_lower:
  "w \<in> set out \<Longrightarrow> snd w \<noteq> [] \<Longrightarrow> fst w + length (snd w) \<le> file_size out"
  by (induction out) (auto simp: max_def)

lemma length_le32: "length (le32 x) = 4"
  by (simp add: le32_def)

lemma trail_log_bounds:
  "w \<in> set (trail_log c ts fo) \<Longrightarrow>
   (4 * c \<le> fst w \<and> fst w + length (snd w) \<le> 4 * (c + length ts)) \<or>
   (fo \<le> fst w \<and> fst w + length (snd w) \<le> fo + sum_list (map length ts))"
proof (induction ts arbitrary: c fo)
  case Nil
  then show ?case by simp
next
  case (Cons t ts)
  from Cons.prems consider "w \<in> set (trail_log (Suc c) ts (fo + length t))"
    | "w = (fo, t)" | "w = (4 * c, le32 fo)"
    by auto
  then show ?case
  proof cases
    case 1
    from Cons.IH [OF this] show ?thesis by auto
  next
    case 2
    then show ?thesis by simp
  next
    case 3
    then show ?thesis by (simp add: length_le32)
  qed
qed

lemma trail_log_disjoint:
  "4 * (c + length ts) \<le> fo \<Longrightarrow> disjoint_writes (trail_log c ts fo)"
proof (induction ts arbitrary: c fo)
  case Nil
  show ?case by simp
next
  case (Cons t ts)
  have "disjoint_writes (trail_log (Suc c) ts (fo + length t))"
    using Cons.prems by (intro Cons.IH) simp
  moreover have "disjoint_writes [(fo, t), (4 * c, le32 fo)]"
    using Cons.prems by (simp add: apart_def length_le32)
  moreover have "\<forall>w\<in>set (trail_log (Suc c) ts (fo + length t)).
                   \<forall>w'\<in>set [(fo, t), (4 * c, le32 fo)]. apart (fst w) (length (snd w)) w'"
  proof
    fix w assume "w \<in> set (trail_log (Suc c) ts (fo + length t))"
    from trail_log_bounds [OF this] Cons.prems
    show "\<forall>w'\<in>set [(fo, t), (4 * c, le32 fo)]. apart (fst w) (length (snd w)) w'"
      by (auto simp: apart_def length_le32)
  qed
  ultimately show ?case by (simp add: disjoint_writes_append)
qed

lemma trail_log_member:
  "k < length ts \<Longrightarrow>
   (fo + sum_list (map length (take k ts)), ts ! k) \<in> set (trail_log c ts fo) \<and>
   (4 * (c + k), le32 (fo + sum_list (map length (take k ts)))) \<in> set (trail_log c ts fo)"
proof (induction ts arbitrary: c fo k)
  case Nil
  then show ?case by simp
next
  case (Cons t ts)
  show ?case
  proof (cases k)
    case 0
    then show ?thesis by simp
  next
    case (Suc j)
    with Cons.prems have "j < length ts" by simp
    from Cons.IH [OF this, of "fo + length t" "Suc c"] Suc show ?thesis
      by (simp add: add.assoc)
  qed
qed

lemma unat_of_nat_times4: "c < 2 ^ 61 \<Longrightarrow> unat ((of_nat c :: 64 word) * 4) = 4 * c"
proof -
  assume c: "c < 2 ^ 61"
  have "(of_nat c :: 64 word) * 4 = of_nat (4 * c)" by simp
  moreover have "4 * c < 2 ^ 64" using c by simp
  ultimately show ?thesis by (simp only: unat_of_nat) simp
qed

lemma unat_byte_of_nat: "unat (of_nat m :: 8 word) = m mod 256"
  by (simp add: unat_of_nat)

lemma le32_arith:
  assumes "x < 2 ^ 32"
  shows "x mod 256 + (x div 256 mod 256) * 256 + (x div 65536 mod 256) * 65536
               + (x div 16777216 mod 256) * 16777216 = (x::nat)"
proof -
  define q1 where "q1 = x div 256"
  define q2 where "q2 = q1 div 256"
  define q3 where "q3 = q2 div 256"
  define r0 where "r0 = x mod 256"
  define r1 where "r1 = q1 mod 256"
  define r2 where "r2 = q2 mod 256"
  have e0: "x = 256 * q1 + r0" unfolding q1_def r0_def by simp
  have e1: "q1 = 256 * q2 + r1" unfolding q2_def r1_def by simp
  have e2: "q2 = 256 * q3 + r2" unfolding q3_def r2_def by simp
  have d2: "x div 65536 = q2" unfolding q2_def q1_def by (simp add: div_mult2_eq [symmetric])
  have d3: "x div 16777216 = q3"
    unfolding q3_def q2_def q1_def by (simp add: div_mult2_eq [symmetric])
  have "q3 < 256" using assms unfolding d3 [symmetric] by simp
  then have m3: "q3 mod 256 = q3" by simp
  have "r0 + r1 * 256 + r2 * 65536 + q3 * 16777216 = x"
    using e0 e1 e2 by linarith
  then show ?thesis
    unfolding d2 d3 m3 r0_def r1_def r2_def q1_def [symmetric] .
qed


lemma le32_value:
  assumes "x < 2 ^ 32"
  shows "(\<Sum>b\<leftarrow>[0..<4]. unat (le32 x ! b) * 256 ^ b) = x"
proof -
  have u: "[0..<4] = [0, 1, 2, Suc 2]" by (simp add: upt_rec)
  have m: "x div 16777216 mod 256 = x div 16777216" using assms by simp
  from le32_arith [OF assms] show ?thesis
    by (simp add: le32_def u unat_byte_of_nat m)
qed

lemma read_le32_member:
  assumes "disjoint_writes out" and "(pos, le32 x) \<in> set out" and "x < 2 ^ 32"
  shows "read_le32 out pos = x"
proof -
  have "\<And>b. b < 4 \<Longrightarrow> file_byte out (pos + b) = le32 x ! b"
    using assms(1,2) by (intro file_byte_member) (simp_all add: length_le32)
  then have "map (\<lambda>b. unat (file_byte out (pos + b)) * 256 ^ b) [0..<4]
               = map (\<lambda>b. unat (le32 x ! b) * 256 ^ b) [0..<4]"
    by (intro map_cong) simp_all
  then have "read_le32 out pos = (\<Sum>b\<leftarrow>[0..<4]. unat (le32 x ! b) * 256 ^ b)"
    unfolding read_le32_def by (rule arg_cong)
  then show ?thesis
    by (simp only: le32_value [OF assms(3)])
qed

lemma file_bytes_member:
  assumes "disjoint_writes out" and "(pos, bytes) \<in> set out"
  shows "file_bytes out pos (length bytes) = bytes"
proof -
  have "\<And>j. j < length bytes \<Longrightarrow> file_byte out (pos + j) = bytes ! j"
    using assms by (intro file_byte_member)
  then show ?thesis
    by (intro nth_equalityI) (simp_all add: file_bytes_def)
qed

lemma cookie_trail_nonempty:
  assumes "cookie_trail f g items nf run = Inr t"
  shows "t \<noteq> []"
proof -
  from assms obtain buf offs where
    b: "cookie_bits f g items nf run = Inr (buf, offs)"
    and t: "t = buf_bytes (snd (length_residual buf offs)) (fst (length_residual buf offs))"
    by (auto simp: cookie_trail_def split: sum.splits)
  from cookie_bits_clear(2) [OF b] have "0 < fst (length_residual buf offs)"
    by (auto simp: length_residual_def)
  then show ?thesis by (simp add: t buf_bytes_def)
qed

lemma write_trails_Inr:
  "write_trails f g items nf runs fo out = Inr r \<Longrightarrow>
   \<exists>ts. map (cookie_trail f g items nf) runs = map Inr ts"
proof (induction runs arbitrary: fo out)
  case Nil
  then show ?case by simp
next
  case (Cons run runs')
  from Cons.prems obtain t where t: "cookie_trail f g items nf run = Inr t"
    and r: "write_trails f g items nf runs' (fo + length t)
              ((fo, t) # (unat (cookie_id (hd run) * 4), le32 fo) # out) = Inr r"
    by (auto split: sum.splits if_splits)
  from Cons.IH [OF r] obtain ts where "map (cookie_trail f g items nf) runs' = map Inr ts" ..
  with t have "map (cookie_trail f g items nf) (run # runs') = map Inr (t # ts)" by simp
  then show ?case ..
qed

lemma write_trails_trails:
  assumes "map (cookie_trail f g items nf) runs = map Inr ts"
      and "\<forall>k<length runs. cookie_id (hd (runs ! k)) = of_nat (c + k)"
      and "c + length runs < 2 ^ 61"
  shows "write_trails f g items nf runs fo out =
           (if runs \<noteq> [] \<and> UINT32_MAX \<le> fo + sum_list (map length ts) then Inl Trail_over_4GB
            else Inr (fo + sum_list (map length ts), trail_log c ts fo @ out))"
  using assms
proof (induction runs arbitrary: ts c fo out)
  case Nil
  then show ?case by simp
next
  case (Cons run runs')
  from Cons.prems(1) obtain t ts' where ts: "ts = t # ts'"
    and t: "cookie_trail f g items nf run = Inr t"
    and ts': "map (cookie_trail f g items nf) runs' = map Inr ts'"
    by (cases ts) auto
  from Cons.prems(2) [rule_format, of 0] have "cookie_id (hd run) = of_nat c" by simp
  moreover from Cons.prems(3) have "c < 2 ^ 61" by simp
  ultimately have pos: "unat (cookie_id (hd run) * 4) = 4 * c"
    by (simp add: unat_of_nat_times4)
  have ids: "\<forall>k<length runs'. cookie_id (hd (runs' ! k)) = of_nat (Suc c + k)"
    using Cons.prems(2) by (auto dest: spec [where x = "Suc k" for k])
  have IH: "write_trails f g items nf runs' (fo + length t) ((fo, t) # (4 * c, le32 fo) # out) =
           (if runs' \<noteq> [] \<and> UINT32_MAX \<le> fo + length t + sum_list (map length ts')
            then Inl Trail_over_4GB
            else Inr (fo + length t + sum_list (map length ts'),
                      trail_log (Suc c) ts' (fo + length t) @ (fo, t) # (4 * c, le32 fo) # out))"
    using ts' ids Cons.prems(3) by (intro Cons.IH) simp_all
  have empty: "runs' = [] \<Longrightarrow> ts' = []" using ts' by auto
  show ?case
    using empty by (auto simp: t ts pos IH add.assoc)
qed

section \<open>The finished trail file\<close>

lemma unat_of_nat_times4': "c < 2 ^ 62 \<Longrightarrow> unat ((of_nat c :: 64 word) * 4) = 4 * c"
proof -
  assume c: "c < 2 ^ 62"
  have "(of_nat c :: 64 word) * 4 = of_nat (4 * c)" by simp
  moreover have "4 * c < 2 ^ 64" using c by simp
  ultimately show ?thesis by (simp only: unat_of_nat) simp
qed

lemma cookie_run_ids: "\<forall>r\<in>set (cookie_run grouped k). cookie_id r = of_nat k"
  by (simp add: cookie_run_def)

lemma encode_trails_runs:
  assumes "grouped_by_cookie n grouped"
  shows "encode_trails f g items grouped (length grouped) (of_nat n) nf =
           (if UINT32_MAX \<le> 4 * (n + 1) then Inl Trail_over_4GB
            else case write_trails f g items nf (map (cookie_run grouped) [0..<n]) (4 * (n + 1)) [] of
                   Inl e \<Rightarrow> Inl e
                 | Inr (fo, out) \<Rightarrow> Inr ((4 * n, le32 fo) # out))"
proof -
  let ?runs = "map (cookie_run grouped) [0..<n]"
  from assms have n: "n < 2 ^ 61" and cat: "grouped = concat ?runs"
    and ne: "\<forall>k<n. cookie_run grouped k \<noteq> []"
    by (simp_all add: grouped_by_cookie_def)
  have "(of_nat n + 1 :: 64 word) = of_nat (n + 1)" by simp
  moreover have "n + 1 < 2 ^ 62" using n by simp
  ultimately have toc_size: "unat ((of_nat n + 1 :: 64 word) * 4) = 4 * (n + 1)"
    by (simp only: unat_of_nat_times4')
  have last_slot: "unat ((of_nat n :: 64 word) * 4) = 4 * n"
    using n by (intro unat_of_nat_times4') simp
  show ?thesis
  proof (cases "n = 0")
    case True
    with cat have "grouped = []" by simp
    then show ?thesis
      using True by (simp add: encode_trails_def UINT32_MAX_def)
  next
    case False
    with ne have "cookie_run grouped 0 \<noteq> []" by simp
    then have "grouped \<noteq> []" by (auto simp: cookie_run_def)
    then obtain ev rest where g: "grouped = ev # rest" by (cases grouped) auto
    have "encode_loop f g items (length grouped) nf 0 ev rest (4 * (n + 1)) [] zero_buf =
            write_trails f g items nf ?runs (4 * (n + 1)) []"
    proof (rule encode_loop_runs [where c = 0])
      show "?runs \<noteq> []" using False by simp
      show "ev # rest = concat ?runs" using cat g by simp
      show "\<forall>k<length ?runs. ?runs ! k \<noteq> [] \<and>
              (\<forall>r\<in>set (?runs ! k). cookie_id r = of_nat (0 + k))"
        using ne cookie_run_ids by simp
      show "0 + length (concat ?runs) = length grouped" using cat by simp
    qed
    then show ?thesis
      unfolding encode_trails_def toc_size last_slot Let_def
      by (simp add: g)
  qed
qed

lemma final_file:
  assumes "grouped_by_cookie n grouped"
      and "encode_trails f g items grouped (length grouped) (of_nat n) nf = Inr out"
  shows "\<exists>ts. length ts = n \<and>
           (\<forall>k<n. cookie_trail f g items nf (cookie_run grouped k) = Inr (ts ! k)) \<and>
           out = (4 * n, le32 (trail_offset n ts n)) # trail_log 0 ts (4 * (n + 1)) \<and>
           trail_offset n ts n < UINT32_MAX"
proof -
  let ?runs = "map (cookie_run grouped) [0..<n]"
  from assms(1) have n: "n < 2 ^ 61" and ne: "\<forall>k<n. cookie_run grouped k \<noteq> []"
    by (simp_all add: grouped_by_cookie_def)
  from assms(2) have small: "\<not> UINT32_MAX \<le> 4 * (n + 1)"
    by (auto simp: encode_trails_runs [OF assms(1)] split: if_splits)
  with assms(2) obtain fo out' where
    w: "write_trails f g items nf ?runs (4 * (n + 1)) [] = Inr (fo, out')"
    and out: "out = (4 * n, le32 fo) # out'"
    by (auto simp: encode_trails_runs [OF assms(1)] split: sum.splits)
  from write_trails_Inr [OF w] obtain ts where
    ts: "map (cookie_trail f g items nf) ?runs = map Inr ts" ..
  then have len: "length ts = n" by (metis length_map length_upt minus_nat.diff_0)
  have each: "\<forall>k<n. cookie_trail f g items nf (cookie_run grouped k) = Inr (ts ! k)"
  proof (intro allI impI)
    fix k assume k: "k < n"
    then have "map (cookie_trail f g items nf) ?runs ! k
                 = cookie_trail f g items nf (cookie_run grouped k)"
      by simp
    moreover have "map Inr ts ! k = Inr (ts ! k)" using k len by simp
    ultimately show "cookie_trail f g items nf (cookie_run grouped k) = Inr (ts ! k)"
      unfolding ts by (rule trans [OF sym])
  qed
  have ids: "\<forall>k<length ?runs. cookie_id (hd (?runs ! k)) = of_nat (0 + k)"
  proof (intro allI impI)
    fix k assume "k < length ?runs"
    then have k: "k < n" by simp
    with ne have "hd (cookie_run grouped k) \<in> set (cookie_run grouped k)" by simp
    with cookie_run_ids have "cookie_id (hd (cookie_run grouped k)) = of_nat k" by blast
    with k show "cookie_id (hd (?runs ! k)) = of_nat (0 + k)" by simp
  qed
  have "write_trails f g items nf ?runs (4 * (n + 1)) [] =
           (if ?runs \<noteq> [] \<and> UINT32_MAX \<le> 4 * (n + 1) + sum_list (map length ts)
            then Inl Trail_over_4GB
            else Inr (4 * (n + 1) + sum_list (map length ts), trail_log 0 ts (4 * (n + 1)) @ []))"
    using ts ids n by (intro write_trails_trails) simp_all
  with w have fo: "fo = 4 * (n + 1) + sum_list (map length ts)"
    and out': "out' = trail_log 0 ts (4 * (n + 1))"
    and bound: "?runs \<noteq> [] \<longrightarrow> \<not> UINT32_MAX \<le> 4 * (n + 1) + sum_list (map length ts)"
    by (auto split: if_splits)
  have "trail_offset n ts n < UINT32_MAX"
  proof (cases "n = 0")
    case True
    with len small show ?thesis by (simp add: trail_offset_def)
  next
    case False
    with bound len show ?thesis by (simp add: trail_offset_def)
  qed
  with len each out fo out' show ?thesis
    by (auto simp: trail_offset_def)
qed

lemma sum_list_take_le: "sum_list (take k (xs::nat list)) \<le> sum_list xs"
proof -
  have "sum_list xs = sum_list (take k xs) + sum_list (drop k xs)"
    by (metis append_take_drop_id sum_list_append)
  then show ?thesis by simp
qed

lemma trail_offset_mono: "trail_offset n ts k \<le> trail_offset n ts (length ts)"
  using sum_list_take_le [of k "map length ts"]
  by (simp add: trail_offset_def take_map)

lemma trail_offset_Suc:
  "k < length ts \<Longrightarrow> trail_offset n ts (Suc k) = trail_offset n ts k + length (ts ! k)"
  by (simp add: trail_offset_def take_Suc_conv_app_nth)

lemma trail_offset_0: "trail_offset n ts 0 = 4 * (n + 1)"
  by (simp add: trail_offset_def)

lemma final_file_facts:
  assumes len: "length ts = n"
      and out: "out = (4 * n, le32 (trail_offset n ts n)) # trail_log 0 ts (4 * (n + 1))"
      and bound: "trail_offset n ts n < UINT32_MAX"
      and ne: "\<forall>k<n. ts ! k \<noteq> []"
  shows "disjoint_writes out"
    and "\<forall>k\<le>n. toc out k = trail_offset n ts k"
    and "\<forall>k<n. file_bytes out (trail_offset n ts k) (length (ts ! k)) = ts ! k"
    and "file_size out = trail_offset n ts n"
    and "\<forall>k\<le>n. slot_writes out k = 1"
proof -
  let ?log = "trail_log 0 ts (4 * (n + 1))"
  have total: "trail_offset n ts n = 4 * (n + 1) + sum_list (map length ts)"
    using len by (simp add: trail_offset_def)
  have bounds: "\<And>w. w \<in> set ?log \<Longrightarrow>
                  fst w + length (snd w) \<le> 4 * n \<or>
                  (4 * (n + 1) \<le> fst w \<and> fst w + length (snd w) \<le> trail_offset n ts n)"
    using trail_log_bounds [of _ 0 ts "4 * (n + 1)"] len total by auto
  have "disjoint_writes ?log"
    using len by (intro trail_log_disjoint) simp
  moreover have "\<forall>w'\<in>set ?log. apart (4 * n) 4 w'"
  proof
    fix w assume "w \<in> set ?log"
    from bounds [OF this] show "apart (4 * n) 4 w" by (auto simp: apart_def)
  qed
  ultimately show dis: "disjoint_writes out"
    by (simp add: out length_le32)
  have small: "\<And>k. k \<le> n \<Longrightarrow> trail_offset n ts k < 2 ^ 32"
  proof -
    fix k
    have "trail_offset n ts k \<le> trail_offset n ts n"
      using trail_offset_mono [of n ts k] len by simp
    with bound show "trail_offset n ts k < 2 ^ 32" by (simp add: UINT32_MAX_def)
  qed
  have slot: "\<And>k. k \<le> n \<Longrightarrow> (4 * k, le32 (trail_offset n ts k)) \<in> set out"
  proof -
    fix k assume "k \<le> n"
    show "(4 * k, le32 (trail_offset n ts k)) \<in> set out"
    proof (cases "k = n")
      case True
      then show ?thesis by (simp add: out)
    next
      case False
      with \<open>k \<le> n\<close> len have "k < length ts" by simp
      from trail_log_member [OF this, of "4 * (n + 1)" 0] show ?thesis
        by (simp add: out trail_offset_def)
    qed
  qed
  show "\<forall>k\<le>n. toc out k = trail_offset n ts k"
    unfolding toc_def using dis slot small by (auto intro: read_le32_member)
  have trail: "\<And>k. k < n \<Longrightarrow> (trail_offset n ts k, ts ! k) \<in> set out"
  proof -
    fix k assume "k < n"
    with len have "k < length ts" by simp
    from trail_log_member [OF this, of "4 * (n + 1)" 0] show "(trail_offset n ts k, ts ! k) \<in> set out"
      by (simp add: out trail_offset_def)
  qed
  show "\<forall>k<n. file_bytes out (trail_offset n ts k) (length (ts ! k)) = ts ! k"
    using dis trail by (auto intro: file_bytes_member)
  have upper: "file_size out \<le> trail_offset n ts n"
  proof (rule file_size_upper, rule ballI)
    fix w assume "w \<in> set out"
    then consider "w = (4 * n, le32 (trail_offset n ts n))" | "w \<in> set ?log"
      by (auto simp: out)
    then show "fst w + length (snd w) \<le> trail_offset n ts n"
    proof cases
      case 1
      then show ?thesis by (simp add: length_le32 total)
    next
      case 2
      from bounds [OF this] show ?thesis by (auto simp: total)
    qed
  qed
  have lower: "trail_offset n ts n \<le> file_size out"
  proof (cases n)
    case 0
    have "(4 * n, le32 (trail_offset n ts n)) \<in> set out" by (simp add: out)
    from file_size_lower [OF this] 0 len show ?thesis
      by (simp add: length_le32 trail_offset_def le32_def)
  next
    case (Suc m)
    then have m: "m < n" by simp
    from file_size_lower [OF trail [OF m]] ne m
    have "trail_offset n ts m + length (ts ! m) \<le> file_size out" by simp
    with trail_offset_Suc [of m ts n] m len Suc show ?thesis by simp
  qed
  from upper lower show "file_size out = trail_offset n ts n" by simp
  show "\<forall>k\<le>n. slot_writes out k = 1"
  proof (intro allI impI)
    fix k assume "k \<le> n"
    from filter_member_once [OF dis slot [OF this]]
    show "slot_writes out k = 1"
      by (simp add: slot_writes_def length_le32 le32_def)
  qed
qed

lemma final_file_trails:
  assumes "grouped_by_cookie n grouped"
      and "encode_trails f g items grouped (length grouped) (of_nat n) nf = Inr out"
  shows "\<exists>ts. length ts = n \<and>
           (\<forall>k<n. cookie_trail f g items nf (cookie_run grouped k) = Inr (ts ! k) \<and> ts ! k \<noteq> [] \<and>
                   file_bytes out (toc out k) (length (ts ! k)) = ts ! k \<and>
                   toc out (Suc k) = toc out k + length (ts ! k)) \<and>
           (\<forall>k\<le>n. slot_writes out k = 1) \<and>
           toc out 0 = 4 * (n + 1) \<and> file_size out = toc out n \<and> toc out n < UINT32_MAX"
proof -
  from final_file [OF assms] obtain ts where
    len: "length ts = n"
    and each: "\<forall>k<n. cookie_trail f g items nf (cookie_run grouped k) = Inr (ts ! k)"
    and out: "out = (4 * n, le32 (trail_offset n ts n)) # trail_log 0 ts (4 * (n + 1))"
    and bound: "trail_offset n ts n < UINT32_MAX"
    by blast
  have ne: "\<forall>k<n. ts ! k \<noteq> []"
    using each cookie_trail_nonempty by blast
  note facts = final_file_facts [OF len out bound ne]
  have "\<forall>k<n. toc out (Suc k) = toc out k + length (ts ! k)"
    using facts(2) trail_offset_Suc [of _ ts n] len by simp
  moreover have "\<forall>k<n. file_bytes out (toc out k) (length (ts ! k)) = ts ! k"
    using facts(2,3) by simp
  moreover have "toc out 0 = 4 * (n + 1)"
    using facts(2) by (simp add: trail_offset_0)
  ultimately show ?thesis
    using len each ne facts(2,4,5) bound by (intro exI [of _ ts]) simp
qed

text \<open>
  C5. When \<open>encode_trails\<close> returns on a stream grouped by cookie for \<open>n\<close> cookies,
  with \<open>num_events\<close> the number of its records, the finished file starts with \<open>n + 1\<close>
  little-endian 32-bit offsets: for every cookie \<open>k < n\<close>, \<open>toc k \<le> toc (k + 1)\<close> and the
  bytes of the file from \<open>toc k\<close> up to \<open>toc (k + 1)\<close> are exactly the zero-padded trail
  of the cookie's run, so that the difference of the two offsets is its length in bytes;
  the first trail starts right behind the table, and the last entry \<open>toc n\<close> is the size
  of the file, which is below \<open>2^32\<close>.
\<close>

theorem toc_consistency:
  assumes "grouped_by_cookie n grouped"
      and "encode_trails tdb_item_field gram_code items grouped (length grouped) (of_nat n) num_fields
             = Inr out"
  shows "(\<forall>k<n. toc out k \<le> toc out (Suc k) \<and>
                 cookie_trail tdb_item_field gram_code items num_fields (cookie_run grouped k)
                   = Inr (file_bytes out (toc out k) (toc out (Suc k) - toc out k))) \<and>
         toc out 0 = 4 * (n + 1) \<and> toc out n = file_size out \<and> file_size out < 2 ^ 32"
proof -
  from final_file_trails [OF assms] obtain ts where
    "\<forall>k<n. cookie_trail tdb_item_field gram_code items num_fields (cookie_run grouped k)
              = Inr (ts ! k) \<and> ts ! k \<noteq> [] \<and>
            file_bytes out (toc out k) (length (ts ! k)) = ts ! k \<and>
            toc out (Suc k) = toc out k + length (ts ! k)"
    and "toc out 0 = 4 * (n + 1)" "file_size out = toc out n" "toc out n < UINT32_MAX"
    by blast
  then show ?thesis by (simp add: UINT32_MAX_def)
qed

section \<open>The grouped stream of group\_events\<close>

text \<open>
  The walk along the backlinks returns when every backlink points to an earlier place of
  the event array, as it does when each event is linked to the event of its cookie that
  was recorded before it: the steps allowed to the walk suffice for every such chain.
\<close>

lemma follow_backlinks_returns:
  assumes "\<forall>k<length events. unat (prev_event_idx (events ! k)) \<le> k"
      and "idx < length events" and "idx < fuel"
  shows "\<exists>bs. follow_backlinks events i fuel idx = Inr bs"
  using assms(2,3)
proof (induction fuel arbitrary: idx)
  case 0
  then show ?case by simp
next
  case (Suc fuel)
  show ?case
  proof (cases "prev_event_idx (events ! idx) = 0")
    case True
    with Suc.prems show ?thesis by (simp add: Let_def)
  next
    case False
    let ?p = "prev_event_idx (events ! idx)"
    from False have "unat (?p - 1) = unat ?p - 1"
      by (simp add: unat_minus_one)
    moreover from False have "0 < unat ?p" by (simp add: unat_gt_0)
    moreover from assms(1) Suc.prems(1) have "unat ?p \<le> idx" by simp
    ultimately have next_idx: "unat (?p - 1) < idx" by simp
    with Suc.prems have "unat (?p - 1) < length events" "unat (?p - 1) < fuel" by simp_all
    from Suc.IH [OF this] obtain bs where
      "follow_backlinks events i fuel (unat (?p - 1)) = Inr bs" ..
    with False Suc.prems show ?thesis by (simp add: Let_def)
  qed
qed

lemma follow_backlinks_chain_limit:
  assumes "\<forall>k<length events. unat (prev_event_idx (events ! k)) \<le> k"
      and "idx < length events" and "length events \<le> 4290000000"
  shows "\<exists>bs. follow_backlinks events i (chain_limit events) idx = Inr bs"
proof -
  from assms(3) have "chain_limit events = length events" by (simp add: chain_limit_def)
  with follow_backlinks_returns [OF assms(1,2), of "length events" i] assms(2)
  show ?thesis by simp
qed

lemma follow_backlinks_ids:
  "follow_backlinks events i fuel idx = Inr bs \<Longrightarrow> bs \<noteq> [] \<and> (\<forall>b\<in>set bs. cookie_id b = i)"
proof (induction fuel arbitrary: idx bs)
  case 0
  then show ?case by simp
next
  case (Suc fuel)
  show ?case
  proof (cases "prev_event_idx (events ! idx) = 0")
    case True
    with Suc.prems show ?thesis by (auto simp: Let_def split: if_splits)
  next
    case False
    with Suc.prems obtain bs' where
      r: "follow_backlinks events i fuel (unat (prev_event_idx (events ! idx) - 1)) = Inr bs'"
      and bs: "bs = \<lparr>cookie_id = i, c_item_zero = item_zero (events ! idx),
                     c_num_items = num_items (events ! idx),
                     c_timestamp = timestamp (events ! idx)\<rparr> # bs'"
      by (auto simp: Let_def split: if_splits sum.splits)
    from Suc.IH [OF r] bs show ?thesis by simp
  qed
qed

lemma delta_encode_ids:
  "map cookie_id (fst (delta_encode p bs m n)) = map cookie_id bs"
  by (induction bs arbitrary: p m n)
     (simp_all add: fst_delta_encode_Cons del: delta_encode.simps(2))

lemma group_cookie_run:
  assumes "group_cookie events base i ptr m n = Inr (run, m', n')"
  shows "run \<noteq> [] \<and> (\<forall>r\<in>set run. cookie_id r = i)"
proof -
  from assms obtain buf where
    f: "follow_backlinks events i (chain_limit events) (unat ptr) = Inr buf"
    and run: "run = fst (delta_encode base (sort_key c_timestamp buf) m n)"
    by (auto simp: group_cookie_def split: sum.splits)
  from follow_backlinks_ids [OF f] have buf: "buf \<noteq> []" "\<forall>b\<in>set buf. cookie_id b = i"
    by simp_all
  have "length run = length buf" by (simp add: run length_delta_encode)
  with buf(1) have "run \<noteq> []" by auto
  moreover have "cookie_id ` set run = cookie_id ` set buf"
    using delta_encode_ids [of base "sort_key c_timestamp buf" m n]
    by (metis run set_map set_sort)
  ultimately show ?thesis using buf(2) by auto
qed

lemma group_cookies_runs:
  "group_cookies events base i ptrs m n = Inr (g, m', n') \<Longrightarrow>
   \<exists>runs. length runs = length ptrs \<and> g = concat runs \<and>
     (\<forall>k<length ptrs. runs ! k \<noteq> [] \<and> (\<forall>r\<in>set (runs ! k). cookie_id r = of_nat (i + k)))"
proof (induction ptrs arbitrary: i m n g m' n')
  case Nil
  then show ?case by simp
next
  case (Cons ptr ptrs)
  from Cons.prems obtain run m1 n1 rest where
    c: "group_cookie events base (of_nat i) ptr m n = Inr (run, m1, n1)"
    and r: "group_cookies events base (Suc i) ptrs m1 n1 = Inr (rest, m', n')"
    and g: "g = run @ rest"
    by (auto split: sum.splits)
  from Cons.IH [OF r] obtain runs where
    runs: "length runs = length ptrs" "rest = concat runs"
    "\<forall>k<length ptrs. runs ! k \<noteq> [] \<and> (\<forall>r\<in>set (runs ! k). cookie_id r = of_nat (Suc i + k))"
    by blast
  from group_cookie_run [OF c] have run: "run \<noteq> []" "\<forall>r\<in>set run. cookie_id r = of_nat i"
    by simp_all
  have "\<forall>k<length (ptr # ptrs). (run # runs) ! k \<noteq> [] \<and>
          (\<forall>r\<in>set ((run # runs) ! k). cookie_id r = of_nat (i + k))"
  proof (intro allI impI)
    fix k assume "k < length (ptr # ptrs)"
    then show "(run # runs) ! k \<noteq> [] \<and> (\<forall>r\<in>set ((run # runs) ! k). cookie_id r = of_nat (i + k))"
      using run runs(3) by (cases k) simp_all
  qed
  with runs(1,2) g show ?case
    by (intro exI [of _ "run # runs"]) simp
qed

lemma of_nat_64_inj: "j < 2 ^ 61 \<Longrightarrow> k < 2 ^ 61 \<Longrightarrow> (of_nat j :: 64 word) = of_nat k \<Longrightarrow> j = k"
proof -
  assume j: "j < 2 ^ 61" and k: "k < 2 ^ 61" and e: "(of_nat j :: 64 word) = of_nat k"
  have a: "unat ((of_nat j :: 64 word) * 4) = 4 * j" using j by (rule unat_of_nat_times4)
  have b: "unat ((of_nat k :: 64 word) * 4) = 4 * k" using k by (rule unat_of_nat_times4)
  from e have "unat ((of_nat j :: 64 word) * 4) = unat ((of_nat k :: 64 word) * 4)"
    by (rule arg_cong [where f = "\<lambda>w. unat (w * 4)"])
  then have "4 * j = 4 * k" unfolding a b .
  then show "j = k" by arith
qed

lemma filter_concat_nth:
  assumes "k < length runs"
      and "\<forall>r\<in>set (runs ! k). P r"
      and "\<forall>j<length runs. j \<noteq> k \<longrightarrow> (\<forall>r\<in>set (runs ! j). \<not> P r)"
  shows "filter P (concat runs) = runs ! k"
proof -
  have split: "runs = take k runs @ runs ! k # drop (Suc k) runs"
    using assms(1) by (rule id_take_nth_drop)
  have a: "\<forall>xs\<in>set (take k runs). filter P xs = []"
  proof
    fix xs assume "xs \<in> set (take k runs)"
    then obtain j where j: "j < k" "xs = runs ! j"
      using assms(1) by (auto simp: in_set_conv_nth)
    then have "j < length runs" "j \<noteq> k" using assms(1) by simp_all
    with assms(3) j(2) have "\<forall>r\<in>set xs. \<not> P r" by blast
    then show "filter P xs = []" by (simp add: filter_empty_conv)
  qed
  have b: "\<forall>xs\<in>set (drop (Suc k) runs). filter P xs = []"
  proof
    fix xs assume "xs \<in> set (drop (Suc k) runs)"
    then obtain i where i: "i < length runs - Suc k" "xs = drop (Suc k) runs ! i"
      by (auto simp: in_set_conv_nth)
    then have j: "Suc k + i < length runs" "xs = runs ! (Suc k + i)"
      using assms(1) by simp_all
    have "Suc k + i \<noteq> k" by simp
    with assms(3) j have "\<forall>r\<in>set xs. \<not> P r" by blast
    then show "filter P xs = []" by (simp add: filter_empty_conv)
  qed
  have "filter P (concat runs)
          = concat (map (filter P) (take k runs)) @ filter P (runs ! k)
              @ concat (map (filter P) (drop (Suc k) runs))"
    by (subst split) (simp add: filter_concat)
  also have "concat (map (filter P) (take k runs)) = []" using a by simp
  also have "concat (map (filter P) (drop (Suc k) runs)) = []" using b by simp
  also have "filter P (runs ! k) = runs ! k" using assms(2) by simp
  finally show ?thesis by simp
qed

lemma concat_runs_grouped:
  assumes "length runs = n" and "n < 2 ^ 61"
      and "\<forall>k<n. runs ! k \<noteq> [] \<and> (\<forall>r\<in>set (runs ! k). cookie_id r = of_nat k)"
  shows "grouped_by_cookie n (concat runs)"
proof -
  have run: "\<And>k. k < n \<Longrightarrow> cookie_run (concat runs) k = runs ! k"
  proof -
    fix k assume k: "k < n"
    show "cookie_run (concat runs) k = runs ! k"
      unfolding cookie_run_def
    proof (rule filter_concat_nth)
      show "k < length runs" using k assms(1) by simp
      show "\<forall>r\<in>set (runs ! k). cookie_id r = of_nat k" using k assms(3) by simp
      show "\<forall>j<length runs. j \<noteq> k \<longrightarrow> (\<forall>r\<in>set (runs ! j). cookie_id r \<noteq> of_nat k)"
      proof (intro allI impI ballI)
        fix j r assume j: "j < length runs" "j \<noteq> k" "r \<in> set (runs ! j)"
        with assms(1,3) have "cookie_id r = of_nat j" by simp
        moreover have "(of_nat j :: 64 word) \<noteq> of_nat k"
          using of_nat_64_inj [of j k] j k assms(1,2) by auto
        ultimately show "cookie_id r \<noteq> of_nat k" by simp
      qed
    qed
  qed
  have "map (cookie_run (concat runs)) [0..<n] = runs"
    using run assms(1) by (intro nth_equalityI) simp_all
  then show ?thesis
    using assms(2,3) run by (simp add: grouped_by_cookie_def)
qed

lemma group_events_grouped:
  assumes "group_events events ptrs base = Inr (grouped, md)" and "length ptrs < 2 ^ 61"
  shows "grouped_by_cookie (length ptrs) grouped"
proof -
  from assms(1) obtain n where "group_cookies events base 0 ptrs 0 0 = Inr (grouped, md, n)"
    by (auto simp: group_events_def split: sum.splits if_splits)
  from group_cookies_runs [OF this] obtain runs where
    "length runs = length ptrs" "grouped = concat runs"
    "\<forall>k<length ptrs. runs ! k \<noteq> [] \<and> (\<forall>r\<in>set (runs ! k). cookie_id r = of_nat (0 + k))"
    by blast
  with assms(2) show ?thesis
    using concat_runs_grouped [of runs "length ptrs"] by simp
qed

text \<open>
  C10. When the grouping of \<open>n\<close> cookies returns, every cookie has at least one record in
  the grouped stream. When moreover the stream has as many records as there are events
  and \<open>encode_trails\<close> returns, the offsets of the table of contents increase strictly,
  that is every trail has at least one byte, and each of the \<open>n + 1\<close> slots of the table
  is touched by exactly one write.
\<close>

theorem toc_strictly_increasing:
  assumes "group_events events cookie_pointers base_timestamp = Inr (grouped, max_timestamp_delta)"
      and "length cookie_pointers < 2 ^ 61"
      and "length grouped = length events"
      and "encode_trails tdb_item_field gram_code items grouped (length events)
             (of_nat (length cookie_pointers)) num_fields = Inr out"
  shows "(\<forall>k<length cookie_pointers.
            cookie_run grouped k \<noteq> [] \<and> toc out k < toc out (Suc k) \<and> slot_writes out k = 1) \<and>
         slot_writes out (length cookie_pointers) = 1"
proof -
  let ?n = "length cookie_pointers"
  have g: "grouped_by_cookie ?n grouped" using assms(1,2) by (rule group_events_grouped)
  from assms(3,4) have e: "encode_trails tdb_item_field gram_code items grouped (length grouped)
             (of_nat ?n) num_fields = Inr out" by simp
  from final_file_trails [OF g e] obtain ts where
    "\<forall>k<?n. cookie_trail tdb_item_field gram_code items num_fields (cookie_run grouped k)
              = Inr (ts ! k) \<and> ts ! k \<noteq> [] \<and>
            file_bytes out (toc out k) (length (ts ! k)) = ts ! k \<and>
            toc out (Suc k) = toc out k + length (ts ! k)"
    and "\<forall>k\<le>?n. slot_writes out k = 1"
    by blast
  moreover from g have "\<forall>k<?n. cookie_run grouped k \<noteq> []" by (simp add: grouped_by_cookie_def)
  ultimately show ?thesis by simp
qed

section \<open>The size guard, isolation and the length residual\<close>

lemma bit_buf_byte: "bit (buf_byte buf j) b \<longleftrightarrow> b < 8 \<and> buf (8 * j + b)"
  by (auto simp: buf_byte_def bit_horner_sum_bit_word_iff)

lemma residual_byte:
  assumes "\<forall>i<3. bit (w::8 word) i = bit (v::nat) i" and "v < 8"
  shows "unat (w AND 7) = v"
proof -
  have "w AND 7 = of_nat v"
  proof (rule bit_word_eqI)
    fix i assume "i < LENGTH(8)"
    have seven: "(7 :: 8 word) = mask 3" by (simp add: mask_eq_exp_minus_1)
    have "bit (w AND 7) i \<longleftrightarrow> i < 3 \<and> bit w i"
      unfolding seven by (auto simp: bit_simps)
    also have "\<dots> \<longleftrightarrow> bit v i"
      using assms bit_small [of v i] by auto
    also have "\<dots> \<longleftrightarrow> bit (of_nat v :: 8 word) i"
      using \<open>i < LENGTH(8)\<close> by (simp add: bit_simps)
    finally show "bit (w AND 7) i = bit (of_nat v :: 8 word) i" .
  qed
  moreover have "unat (of_nat v :: 8 word) = v"
    using assms(2) by (simp add: unat_byte_of_nat)
  ultimately show ?thesis by simp
qed

lemma write_trails_append:
  "write_trails f g items nf (r1 @ r2) fo out =
     (case write_trails f g items nf r1 fo out of
        Inl e \<Rightarrow> Inl e
      | Inr (fo', out') \<Rightarrow> write_trails f g items nf r2 fo' out')"
  by (induction r1 arbitrary: fo out) (auto split: sum.splits)

lemma encode_trails_prefix_abort:
  assumes g: "grouped_by_cookie n grouped"
      and j: "j \<le> n" "length ts = j"
      and ts: "\<forall>k<j. cookie_trail f g' items nf (cookie_run grouped k) = Inr (ts ! k)"
      and big: "UINT32_MAX \<le> 4 * (n + 1) + sum_list (map length ts)"
  shows "encode_trails f g' items grouped (length grouped) (of_nat n) nf = Inl Trail_over_4GB"
proof (cases "UINT32_MAX \<le> 4 * (n + 1)")
  case True
  then show ?thesis by (simp add: encode_trails_runs [OF g])
next
  case False
  let ?runs = "map (cookie_run grouped) [0..<n]"
  from g have n: "n < 2 ^ 61" and ne: "\<forall>k<n. cookie_run grouped k \<noteq> []"
    by (simp_all add: grouped_by_cookie_def)
  from False big have "ts \<noteq> []" by auto
  with j have j0: "0 < j" by auto
  have split: "?runs = map (cookie_run grouped) [0..<j] @ map (cookie_run grouped) [j..<n]"
    using j(1) by (metis map_append upt_add_eq_append le_add_diff_inverse zero_le)
  let ?pre = "map (cookie_run grouped) [0..<j]"
  have m: "map (cookie_trail f g' items nf) ?pre = map Inr ts"
    using ts j(2) by (intro nth_equalityI) simp_all
  have ids: "\<forall>k<length ?pre. cookie_id (hd (?pre ! k)) = of_nat (0 + k)"
  proof (intro allI impI)
    fix k assume "k < length ?pre"
    then have k: "k < j" by simp
    with j(1) ne have "hd (cookie_run grouped k) \<in> set (cookie_run grouped k)" by simp
    with cookie_run_ids have "cookie_id (hd (cookie_run grouped k)) = of_nat k" by blast
    with k show "cookie_id (hd (?pre ! k)) = of_nat (0 + k)" by simp
  qed
  have "write_trails f g' items nf ?pre (4 * (n + 1)) [] =
           (if ?pre \<noteq> [] \<and> UINT32_MAX \<le> 4 * (n + 1) + sum_list (map length ts)
            then Inl Trail_over_4GB
            else Inr (4 * (n + 1) + sum_list (map length ts), trail_log 0 ts (4 * (n + 1)) @ []))"
    using m ids n j(1) by (intro write_trails_trails) simp_all
  with big j0 have "write_trails f g' items nf ?pre (4 * (n + 1)) [] = Inl Trail_over_4GB"
    by simp
  then have "write_trails f g' items nf ?runs (4 * (n + 1)) [] = Inl Trail_over_4GB"
    by (subst split) (simp add: write_trails_append)
  with False show ?thesis by (simp add: encode_trails_runs [OF g])
qed

text \<open>
  C2. On a stream grouped by cookie, \<open>encode_trails\<close> aborts with "over 4GB" as soon as
  the cumulative offset, the size of the table of contents plus the lengths of the trails
  of the first \<open>j\<close> cookies, reaches \<open>2^32 - 1\<close>, for any \<open>j\<close> from 0 (the check before
  the loop) to \<open>n\<close>; in particular whenever it would reach or exceed \<open>2^32\<close>, and when
  it is exactly \<open>2^32 - 1\<close>. An abort ends the run: nothing is written after it. When
  \<open>encode_trails\<close> returns, the file it has produced is smaller than \<open>2^32\<close> bytes.
\<close>

theorem trail_file_size_guard:
  assumes "grouped_by_cookie n grouped"
  shows "(\<forall>j ts. j \<le> n \<and> length ts = j \<and>
            (\<forall>k<j. cookie_trail tdb_item_field gram_code items num_fields (cookie_run grouped k)
                      = Inr (ts ! k)) \<and>
            2 ^ 32 - 1 \<le> 4 * (n + 1) + sum_list (map length ts) \<longrightarrow>
            encode_trails tdb_item_field gram_code items grouped (length grouped) (of_nat n)
              num_fields = Inl Trail_over_4GB) \<and>
         (\<forall>out. encode_trails tdb_item_field gram_code items grouped (length grouped) (of_nat n)
                  num_fields = Inr out \<longrightarrow> file_size out < 2 ^ 32)"
proof (intro conjI allI impI)
  fix j ts
  assume a: "j \<le> n \<and> length ts = j \<and>
            (\<forall>k<j. cookie_trail tdb_item_field gram_code items num_fields (cookie_run grouped k)
                      = Inr (ts ! k)) \<and>
            2 ^ 32 - 1 \<le> 4 * (n + 1) + sum_list (map length ts)"
  then have "UINT32_MAX \<le> 4 * (n + 1) + sum_list (map length ts)"
    by (simp add: UINT32_MAX_def)
  with a assms show "encode_trails tdb_item_field gram_code items grouped (length grouped) (of_nat n)
              num_fields = Inl Trail_over_4GB"
    by (intro encode_trails_prefix_abort [where j = j and ts = ts]) simp_all
next
  fix out
  assume "encode_trails tdb_item_field gram_code items grouped (length grouped) (of_nat n)
                  num_fields = Inr out"
  from final_file_trails [OF assms this] show "file_size out < 2 ^ 32"
    by (auto simp: UINT32_MAX_def)
qed

text \<open>
  C7. The trail of a cookie in the finished file is a function of the cookie's own run:
  two streams grouped by cookie that agree on the run of cookie \<open>k\<close>, whatever the runs
  of the other cookies and however many there are, give the same bytes for the trail of
  \<open>k\<close>. These bytes are the ones obtained by encoding the events of the run from a
  last-seen table of zeros and a zeroed buffer, with nothing left from the cookie encoded
  before.
\<close>

theorem entity_isolation:
  assumes "grouped_by_cookie n grouped" and "grouped_by_cookie n' grouped'"
      and "encode_trails tdb_item_field gram_code items grouped (length grouped) (of_nat n)
             num_fields = Inr out"
      and "encode_trails tdb_item_field gram_code items grouped' (length grouped') (of_nat n')
             num_fields = Inr out'"
      and "k < n" and "k < n'"
      and "cookie_run grouped k = cookie_run grouped' k"
  shows "file_bytes out (toc out k) (toc out (Suc k) - toc out k)
           = file_bytes out' (toc out' k) (toc out' (Suc k) - toc out' k) \<and>
         (case encode_events tdb_item_field gram_code items (cookie_run grouped k)
                 (replicate (unat (num_fields * 4) div 4) 0) zero_buf 3 of
            Inl e \<Rightarrow> False
          | Inr (buf, offs) \<Rightarrow>
              file_bytes out (toc out k) (toc out (Suc k) - toc out k)
                = buf_bytes (snd (length_residual buf offs)) (fst (length_residual buf offs)))"
proof -
  from final_file_trails [OF assms(1,3)] assms(5) obtain t where
    t: "cookie_trail tdb_item_field gram_code items num_fields (cookie_run grouped k) = Inr t"
    "file_bytes out (toc out k) (length t) = t" "toc out (Suc k) = toc out k + length t"
    by blast
  from final_file_trails [OF assms(2,4)] assms(6) obtain t' where
    t': "cookie_trail tdb_item_field gram_code items num_fields (cookie_run grouped' k) = Inr t'"
    "file_bytes out' (toc out' k) (length t') = t'" "toc out' (Suc k) = toc out' k + length t'"
    by blast
  from t(1) t'(1) assms(7) have same: "t' = t" by simp
  have a: "file_bytes out (toc out k) (toc out (Suc k) - toc out k) = t"
    using t(2,3) by simp
  have b: "file_bytes out' (toc out' k) (toc out' (Suc k) - toc out' k) = t"
    using t'(2,3) same by simp
  from t(1) have "case encode_events tdb_item_field gram_code items (cookie_run grouped k)
                 (replicate (unat (num_fields * 4) div 4) 0) zero_buf 3 of
            Inl e \<Rightarrow> False
          | Inr (buf, offs) \<Rightarrow>
              t = buf_bytes (snd (length_residual buf offs)) (fst (length_residual buf offs))"
    by (auto simp: cookie_trail_def cookie_bits_def split: sum.splits)
  then show ?thesis
    unfolding a b by simp
qed

text \<open>
  C9. For every cookie of a stream grouped by cookie, with \<open>offs\<close> the bit length of its
  trail (the 3 reserved bits included): when \<open>offs\<close> is not a multiple of 8 the trail
  takes \<open>offs div 8 + 1\<close> bytes, the low 3 bits of its first byte hold
  \<open>8 - offs mod 8\<close>, a number from 1 to 7, and the bits of the last byte from \<open>offs\<close> on
  are zero; when \<open>offs\<close> is a multiple of 8 the trail takes \<open>offs div 8\<close> bytes and the
  low 3 bits of its first byte are zero. The bits from 3 up to \<open>offs\<close> are those of the
  entropy coder.
\<close>

theorem length_residual_written:
  assumes "grouped_by_cookie n grouped"
      and "encode_trails tdb_item_field gram_code items grouped (length grouped) (of_nat n)
             num_fields = Inr out"
      and "k < n"
  shows "\<exists>buf offs.
           cookie_bits tdb_item_field gram_code items num_fields (cookie_run grouped k)
             = Inr (buf, offs) \<and>
           3 \<le> offs \<and>
           (offs mod 8 \<noteq> 0 \<longrightarrow>
              toc out (Suc k) - toc out k = offs div 8 + 1 \<and>
              unat (file_byte out (toc out k) AND 7) = 8 - offs mod 8 \<and>
              (\<forall>b. offs \<le> b \<and> b < 8 * (offs div 8 + 1) \<longrightarrow>
                   \<not> bit (file_byte out (toc out k + b div 8)) (b mod 8))) \<and>
           (offs mod 8 = 0 \<longrightarrow>
              toc out (Suc k) - toc out k = offs div 8 \<and>
              file_byte out (toc out k) AND 7 = 0) \<and>
           (\<forall>b. 3 \<le> b \<and> b < offs \<longrightarrow>
                bit (file_byte out (toc out k + b div 8)) (b mod 8) = buf b)"
proof -
  from final_file_trails [OF assms(1,2)] assms(3) obtain t where
    t: "cookie_trail tdb_item_field gram_code items num_fields (cookie_run grouped k) = Inr t"
    "file_bytes out (toc out k) (length t) = t" "toc out (Suc k) = toc out k + length t"
    by blast
  from t(1) obtain buf offs where
    bits: "cookie_bits tdb_item_field gram_code items num_fields (cookie_run grouped k)
             = Inr (buf, offs)"
    and tb: "t = buf_bytes (snd (length_residual buf offs)) (fst (length_residual buf offs))"
    by (auto simp: cookie_trail_def split: sum.splits)
  let ?size = "fst (length_residual buf offs)"
  let ?buf = "snd (length_residual buf offs)"
  from encode_events_bits [OF bits [unfolded cookie_bits_def]]
  have offs: "3 \<le> offs" and set_bits: "\<forall>i. buf i \<longrightarrow> 3 \<le> i \<and> i < offs"
    by (auto simp: zero_buf_def)
  have len: "length t = ?size" by (simp add: tb length_buf_bytes)
  have byte: "\<And>j. j < ?size \<Longrightarrow> file_byte out (toc out k + j) = buf_byte ?buf j"
  proof -
    fix j assume j: "j < ?size"
    have "file_bytes out (toc out k) (length t) ! j = t ! j" by (simp only: t(2))
    with j len show "file_byte out (toc out k + j) = buf_byte ?buf j"
      by (simp add: file_bytes_def tb buf_bytes_def)
  qed
  have bit: "\<And>b. b < 8 * ?size \<Longrightarrow>
               bit (file_byte out (toc out k + b div 8)) (b mod 8) = ?buf b"
  proof -
    fix b assume "b < 8 * ?size"
    then have "b div 8 < ?size" by auto
    from byte [OF this] show "bit (file_byte out (toc out k + b div 8)) (b mod 8) = ?buf b"
      by (simp add: bit_buf_byte)
  qed
  have size: "toc out (Suc k) - toc out k = ?size" using t(3) len by simp
  have cover: "offs \<le> 8 * ?size"
  proof (cases "offs mod 8 = 0")
    case True
    then have "8 * (offs div 8) = offs" by presburger
    with True show ?thesis by (simp add: length_residual_def)
  next
    case False
    have "offs < 8 * (offs div 8 + 1)" by presburger
    with False show ?thesis by (simp add: length_residual_def)
  qed
  have data: "\<forall>b. 3 \<le> b \<and> b < offs \<longrightarrow>
                bit (file_byte out (toc out k + b div 8)) (b mod 8) = buf b"
  proof (intro allI impI)
    fix b assume b: "3 \<le> b \<and> b < offs"
    with cover have "b < 8 * ?size" by simp
    from bit [OF this] have "bit (file_byte out (toc out k + b div 8)) (b mod 8) = ?buf b" .
    moreover have "?buf b = buf b"
      using b bit_small [of "8 - offs mod 8" b]
      by (auto simp: length_residual_def write_bits_def)
    ultimately show "bit (file_byte out (toc out k + b div 8)) (b mod 8) = buf b" by simp
  qed
  have odd: "offs mod 8 \<noteq> 0 \<longrightarrow>
              toc out (Suc k) - toc out k = offs div 8 + 1 \<and>
              unat (file_byte out (toc out k) AND 7) = 8 - offs mod 8 \<and>
              (\<forall>b. offs \<le> b \<and> b < 8 * (offs div 8 + 1) \<longrightarrow>
                   \<not> bit (file_byte out (toc out k + b div 8)) (b mod 8))"
  proof
    assume r: "offs mod 8 \<noteq> 0"
    then have sz: "?size = offs div 8 + 1" and bf: "?buf = write_bits buf 0 (8 - offs mod 8)"
      by (simp_all add: length_residual_def)
    have first: "\<forall>i<3. bit (file_byte out (toc out k)) i = bit (8 - offs mod 8) i"
    proof (intro allI impI)
      fix i :: nat assume i: "i < 3"
      then have "i < 8 * ?size" using sz by simp
      from bit [OF this] i have "bit (file_byte out (toc out k)) i = ?buf i" by simp
      also have "\<dots> = bit (8 - offs mod 8) i"
        using set_bits i by (auto simp: bf write_bits_def)
      finally show "bit (file_byte out (toc out k)) i = bit (8 - offs mod 8) i" .
    qed
    have v: "8 - offs mod 8 < 8" using r by simp
    have pad: "\<forall>b. offs \<le> b \<and> b < 8 * (offs div 8 + 1) \<longrightarrow>
                   \<not> bit (file_byte out (toc out k + b div 8)) (b mod 8)"
    proof (intro allI impI)
      fix b assume b: "offs \<le> b \<and> b < 8 * (offs div 8 + 1)"
      then have "b < 8 * ?size" using sz by simp
      from bit [OF this] have "bit (file_byte out (toc out k + b div 8)) (b mod 8) = ?buf b" .
      moreover have "\<not> ?buf b"
        using b offs set_bits bit_small [OF v, of b]
        by (auto simp: bf write_bits_def)
      ultimately show "\<not> bit (file_byte out (toc out k + b div 8)) (b mod 8)" by simp
    qed
    from size sz residual_byte [OF first v] pad
    show "toc out (Suc k) - toc out k = offs div 8 + 1 \<and>
              unat (file_byte out (toc out k) AND 7) = 8 - offs mod 8 \<and>
              (\<forall>b. offs \<le> b \<and> b < 8 * (offs div 8 + 1) \<longrightarrow>
                   \<not> bit (file_byte out (toc out k + b div 8)) (b mod 8))"
      by simp
  qed
  have even: "offs mod 8 = 0 \<longrightarrow>
              toc out (Suc k) - toc out k = offs div 8 \<and>
              file_byte out (toc out k) AND 7 = 0"
  proof
    assume r: "offs mod 8 = 0"
    then have sz: "?size = offs div 8" and bf: "?buf = buf"
      by (simp_all add: length_residual_def)
    from r offs have "8 \<le> offs" by presburger
    then have pos: "0 < ?size" using sz by simp
    have first: "\<forall>i<3. bit (file_byte out (toc out k)) i = bit (0::nat) i"
    proof (intro allI impI)
      fix i :: nat assume i: "i < 3"
      then have "i < 8 * ?size" using pos by simp
      from bit [OF this] i have "bit (file_byte out (toc out k)) i = ?buf i" by simp
      also have "\<dots> = bit (0::nat) i"
        using set_bits i by (auto simp: bf)
      finally show "bit (file_byte out (toc out k)) i = bit (0::nat) i" .
    qed
    from residual_byte [OF first] have "unat (file_byte out (toc out k) AND 7) = 0" by simp
    then have "file_byte out (toc out k) AND 7 = 0" by (simp add: unat_eq_0)
    with size sz show "toc out (Suc k) - toc out k = offs div 8 \<and>
              file_byte out (toc out k) AND 7 = 0"
      by simp
  qed
  show ?thesis
  proof (rule exI [of _ buf], rule exI [of _ offs], intro conjI)
    show "cookie_bits tdb_item_field gram_code items num_fields (cookie_run grouped k)
             = Inr (buf, offs)" by (rule bits)
    show "3 \<le> offs" by (rule offs)
  qed (rule odd even data)+
qed

section \<open>The scenario, end to end\<close>

lemma scenario_edges:
  "edge_encode_items low_byte_field scenario_items [0, 0] (scenario_run ! 0) = Inr ([257], [0, 257])"
  "edge_encode_items low_byte_field scenario_items [0, 257] (scenario_run ! Suc 0) = Inr ([], [0, 257])"
  "edge_encode_items low_byte_field scenario_items [0, 257] (scenario_run ! 2) = Inr ([513], [0, 513])"
  by (simp_all add: edge_encode_items_def edge_limit_def scenario_run_def scenario_items_def
        low_byte_field_def
        upt_rec)

lemma scenario_bits:
  "cookie_bits low_byte_field one_bit_per_item scenario_items 2 scenario_run =
     Inr (\<lambda>k. k = 3 \<or> k = 4, 5)"
proof -
  have r: "scenario_run = [scenario_run ! 0, scenario_run ! Suc 0, scenario_run ! 2]"
    by (simp add: scenario_run_def)
  have "unat (2 * 4 :: 32 word) div 4 = 2" by simp
  then have t: "replicate (unat (2 * 4 :: 32 word) div 4) (0 :: tdb_item) = [0, 0]"
    by (simp add: numeral_2_eq_2)
  show ?thesis
    unfolding cookie_bits_def t
    apply (subst r)
    apply (simp add: scenario_edges huff_encode_grams_def one_bit_per_item_def UINT32_MAX_def
        zero_buf_def)
    apply (rule ext)
    apply auto
    done
qed

lemma scenario_trail:
  "cookie_trail low_byte_field one_bit_per_item scenario_items 2 scenario_run = Inr [27]"
proof -
  have u: "[0..<8] = [0, 1, 2, 3, 4, 5, 6, 7::nat]" by (simp add: upt_rec)
  have b: "bit (3::nat) 0" "bit (3::nat) (Suc 0)" "\<not> bit (3::nat) 2" "\<not> bit (3::nat) 3"
    "\<not> bit (3::nat) 4" "\<not> bit (3::nat) 5" "\<not> bit (3::nat) 6" "\<not> bit (3::nat) 7"
    by code_simp+
  show ?thesis
    by (simp add: cookie_trail_def scenario_bits length_residual_def buf_bytes_def buf_byte_def
          write_bits_def u b bit_Suc_0_iff)
qed

lemma scenario_cookie_run: "cookie_run scenario_run 0 = scenario_run"
  by (simp add: cookie_run_def scenario_run_def)

lemma scenario_grouped: "grouped_by_cookie 1 scenario_run"
  by (simp add: grouped_by_cookie_def scenario_cookie_run) (simp add: scenario_run_def)

lemma scenario_file:
  "encode_trails low_byte_field one_bit_per_item scenario_items scenario_run
     (length scenario_run) (of_nat 1) 2 = Inr scenario_out"
  unfolding encode_trails_runs [OF scenario_grouped]
  by (simp add: UINT32_MAX_def scenario_cookie_run scenario_trail scenario_out_def)
     (simp add: scenario_run_def)

lemma scenario_toc: "toc scenario_out 0 = 8" "toc scenario_out (Suc 0) = 9"
  by (simp_all add: toc_def read_le32_def scenario_out_def le32_def upt_rec)

lemma scenario_size: "file_size scenario_out = 9"
  by (simp add: scenario_out_def le32_def)

theorem toc_consistency_witness:
  "toc scenario_out 0 = 8 \<and> toc scenario_out 1 = file_size scenario_out \<and>
   cookie_trail low_byte_field one_bit_per_item scenario_items 2 scenario_run
     = Inr (file_bytes scenario_out 8 1)"
  using toc_consistency [OF scenario_grouped scenario_file]
  by (simp add: scenario_cookie_run scenario_toc)

theorem length_residual_written_witness:
  "unat (file_byte scenario_out (toc scenario_out 0) AND 7) = 3 \<and>
   toc scenario_out (Suc 0) - toc scenario_out 0 = 1"
  using length_residual_written [OF scenario_grouped scenario_file, of 0]
  by (simp add: scenario_cookie_run scenario_bits)

lemma scenario_file_events:
  "encode_trails low_byte_field one_bit_per_item scenario_items scenario_run
     (length scenario_events) (of_nat (length [2::64 word])) 2 = Inr scenario_out"
  using scenario_file by (simp add: scenario_events_def scenario_run_def)

theorem toc_strictly_increasing_witness:
  "cookie_run scenario_run 0 \<noteq> [] \<and> toc scenario_out 0 < toc scenario_out (Suc 0) \<and>
   slot_writes scenario_out 0 = 1 \<and> slot_writes scenario_out 1 = 1"
proof -
  have a: "length [2::64 word] < 2 ^ 61" by simp
  have b: "length scenario_run = length scenario_events"
    by (simp add: scenario_run_def scenario_events_def)
  from toc_strictly_increasing [OF scenario_group_events a b scenario_file_events]
  show ?thesis by simp
qed

lemma cookie_run_concat:
  assumes "length runs = n" and "n < 2 ^ 61"
      and "\<forall>k<n. \<forall>r\<in>set (runs ! k). cookie_id r = of_nat k"
      and "k < n"
  shows "cookie_run (concat runs) k = runs ! k"
  unfolding cookie_run_def
proof (rule filter_concat_nth)
  show "k < length runs" using assms(1,4) by simp
  show "\<forall>r\<in>set (runs ! k). cookie_id r = of_nat k" using assms(3,4) by simp
  show "\<forall>j<length runs. j \<noteq> k \<longrightarrow> (\<forall>r\<in>set (runs ! j). cookie_id r \<noteq> of_nat k)"
  proof (intro allI impI ballI)
    fix j r assume j: "j < length runs" "j \<noteq> k" "r \<in> set (runs ! j)"
    with assms(1,3) have "cookie_id r = of_nat j" by simp
    moreover have "(of_nat j :: 64 word) \<noteq> of_nat k"
      using of_nat_64_inj [of j k] j assms(1,2,4) by auto
    ultimately show "cookie_id r \<noteq> of_nat k" by simp
  qed
qed

lemma lone_events_grouped:
  assumes "n < 2 ^ 61"
  shows "grouped_by_cookie n (lone_events n)"
    and "\<forall>k<n. cookie_run (lone_events n) k = [lone_event k]"
proof -
  let ?runs = "map (\<lambda>k. [lone_event k]) [0..<n]"
  have len: "length ?runs = n" by simp
  have ids: "\<forall>k<n. ?runs ! k \<noteq> [] \<and> (\<forall>r\<in>set (?runs ! k). cookie_id r = of_nat k)"
    by (simp add: lone_event_def)
  from concat_runs_grouped [OF len assms ids] show "grouped_by_cookie n (lone_events n)"
    by (simp add: lone_events_def)
  show "\<forall>k<n. cookie_run (lone_events n) k = [lone_event k]"
  proof (intro allI impI)
    fix k assume k: "k < n"
    from ids have "\<forall>k<n. \<forall>r\<in>set (?runs ! k). cookie_id r = of_nat k" by blast
    from cookie_run_concat [OF len assms this k] k
    show "cookie_run (lone_events n) k = [lone_event k]"
      by (simp add: lone_events_def)
  qed
qed

lemma lone_trail:
  "\<exists>t. cookie_trail low_byte_field sixteen_bits [] 0 [lone_event 0] = Inr t \<and> length t = 3"
  by (simp add: cookie_trail_def cookie_bits_def lone_event_def edge_encode_items_def edge_limit_def
        huff_encode_grams_def sixteen_bits_def UINT32_MAX_def length_residual_def
        length_buf_bytes)

theorem trail_file_size_guard_witness:
  "encode_trails low_byte_field sixteen_bits [] (lone_events 1073741822)
     (length (lone_events 1073741822)) (of_nat 1073741822) 0 = Inl Trail_over_4GB \<and>
   file_size scenario_out < 2 ^ 32"
proof -
  have n: "(1073741822::nat) < 2 ^ 61" by simp
  note g = lone_events_grouped [OF n]
  from lone_trail obtain t where
    t: "cookie_trail low_byte_field sixteen_bits [] 0 [lone_event 0] = Inr t" "length t = 3"
    by blast
  have first: "cookie_run (lone_events 1073741822) 0 = [lone_event 0]"
    using g(2) by simp
  have h: "(1::nat) \<le> 1073741822 \<and> length [t] = 1 \<and>
           (\<forall>k<1. cookie_trail low_byte_field sixteen_bits [] 0
                      (cookie_run (lone_events 1073741822) k) = Inr ([t] ! k)) \<and>
           2 ^ 32 - 1 \<le> 4 * (1073741822 + 1) + sum_list (map length [t])"
    using t first by simp
  from trail_file_size_guard [OF g(1), of low_byte_field sixteen_bits "[]" 0] h
  have "encode_trails low_byte_field sixteen_bits [] (lone_events 1073741822)
     (length (lone_events 1073741822)) (of_nat 1073741822) 0 = Inl Trail_over_4GB"
    by blast
  moreover from trail_file_size_guard [OF scenario_grouped, of low_byte_field one_bit_per_item
      scenario_items 2] scenario_file
  have "file_size scenario_out < 2 ^ 32" by blast
  ultimately show ?thesis by simp
qed

lemma isolation_cookie_runs:
  "cookie_run (scenario_run @ isolation_run) 0 = scenario_run"
  "cookie_run (scenario_run @ isolation_run) (Suc 0) = isolation_run"
  by (simp_all add: cookie_run_def scenario_run_def isolation_run_def)

lemma isolation_grouped: "grouped_by_cookie 2 (scenario_run @ isolation_run)"
proof -
  have u: "[0..<2] = [0, Suc 0]" by (simp add: upt_rec)
  have "\<forall>k<2. cookie_run (scenario_run @ isolation_run) k \<noteq> []"
  proof (intro allI impI)
    fix k :: nat assume "k < 2"
    then have "k = 0 \<or> k = Suc 0" by auto
    then show "cookie_run (scenario_run @ isolation_run) k \<noteq> []"
      by (auto simp: isolation_cookie_runs) (simp_all add: scenario_run_def isolation_run_def)
  qed
  then show ?thesis
    by (simp add: grouped_by_cookie_def u isolation_cookie_runs)
qed

lemma isolation_trail:
  "cookie_trail low_byte_field one_bit_per_item scenario_items 2 isolation_run = Inr [12]"
proof -
  have u: "[0..<8] = [0, 1, 2, 3, 4, 5, 6, 7::nat]" by (simp add: upt_rec)
  have "unat (2 * 4 :: 32 word) div 4 = 2" by simp
  then have t: "replicate (unat (2 * 4 :: 32 word) div 4) (0 :: tdb_item) = [0, 0]"
    by (simp add: numeral_2_eq_2)
  have e: "edge_encode_items low_byte_field scenario_items [0, 0] (isolation_run ! 0)
             = Inr ([513], [0, 513])"
    by (simp add: edge_encode_items_def edge_limit_def isolation_run_def scenario_items_def
          low_byte_field_def
          upt_rec)
  have r: "isolation_run = [isolation_run ! 0]" by (simp add: isolation_run_def)
  have bits: "cookie_bits low_byte_field one_bit_per_item scenario_items 2 isolation_run
                = Inr (\<lambda>k. k = 3, 4)"
    unfolding cookie_bits_def t
    apply (subst r)
    apply (simp add: e huff_encode_grams_def one_bit_per_item_def UINT32_MAX_def zero_buf_def)
    apply (rule ext)
    apply auto
    done
  have b: "\<not> bit (4::nat) 0" "\<not> bit (4::nat) (Suc 0)" "bit (4::nat) 2" "\<not> bit (4::nat) 3"
    "\<not> bit (4::nat) 4" "\<not> bit (4::nat) 5" "\<not> bit (4::nat) 6" "\<not> bit (4::nat) 7"
    by code_simp+
  show ?thesis
    by (simp add: cookie_trail_def bits length_residual_def buf_bytes_def buf_byte_def
          write_bits_def u b bit_Suc_0_iff)
qed

lemma isolation_file:
  "encode_trails low_byte_field one_bit_per_item scenario_items (scenario_run @ isolation_run)
     (length (scenario_run @ isolation_run)) (of_nat 2) 2 = Inr isolation_out"
proof -
  have u: "[0..<2] = [0, Suc 0]" by (simp add: upt_rec)
  show ?thesis
    unfolding encode_trails_runs [OF isolation_grouped]
    by (simp add: UINT32_MAX_def u isolation_cookie_runs scenario_trail isolation_trail
          isolation_out_def)
       (simp add: scenario_run_def isolation_run_def)
qed

lemma isolation_first_cookie_runs:
  "cookie_run (isolation_first @ isolation_run) 0 = isolation_first"
  "cookie_run (isolation_first @ isolation_run) (Suc 0) = isolation_run"
  by (simp_all add: cookie_run_def isolation_first_def isolation_run_def)

lemma isolation_first_grouped: "grouped_by_cookie 2 (isolation_first @ isolation_run)"
proof -
  have u: "[0..<2] = [0, Suc 0]" by (simp add: upt_rec)
  have "\<forall>k<2. cookie_run (isolation_first @ isolation_run) k \<noteq> []"
  proof (intro allI impI)
    fix k :: nat assume "k < 2"
    then have "k = 0 \<or> k = Suc 0" by auto
    then show "cookie_run (isolation_first @ isolation_run) k \<noteq> []"
      by (auto simp: isolation_first_cookie_runs)
         (simp_all add: isolation_first_def isolation_run_def)
  qed
  then show ?thesis
    by (simp add: grouped_by_cookie_def u isolation_first_cookie_runs)
qed

lemma isolation_first_trail:
  "cookie_trail low_byte_field one_bit_per_item scenario_items 2 isolation_first = Inr [12]"
proof -
  have u: "[0..<8] = [0, 1, 2, 3, 4, 5, 6, 7::nat]" by (simp add: upt_rec)
  have "unat (2 * 4 :: 32 word) div 4 = 2" by simp
  then have t: "replicate (unat (2 * 4 :: 32 word) div 4) (0 :: tdb_item) = [0, 0]"
    by (simp add: numeral_2_eq_2)
  have e: "edge_encode_items low_byte_field scenario_items [0, 0] (isolation_first ! 0)
             = Inr ([257], [0, 257])"
    by (simp add: edge_encode_items_def edge_limit_def isolation_first_def scenario_items_def
          low_byte_field_def upt_rec)
  have r: "isolation_first = [isolation_first ! 0]" by (simp add: isolation_first_def)
  have bits: "cookie_bits low_byte_field one_bit_per_item scenario_items 2 isolation_first
                = Inr (\<lambda>k. k = 3, 4)"
    unfolding cookie_bits_def t
    apply (subst r)
    apply (simp add: e huff_encode_grams_def one_bit_per_item_def UINT32_MAX_def zero_buf_def)
    apply (rule ext)
    apply auto
    done
  have b: "\<not> bit (4::nat) 0" "\<not> bit (4::nat) (Suc 0)" "bit (4::nat) 2" "\<not> bit (4::nat) 3"
    "\<not> bit (4::nat) 4" "\<not> bit (4::nat) 5" "\<not> bit (4::nat) 6" "\<not> bit (4::nat) 7"
    by code_simp+
  show ?thesis
    by (simp add: cookie_trail_def bits length_residual_def buf_bytes_def buf_byte_def
          write_bits_def u b bit_Suc_0_iff)
qed

lemma isolation_first_file:
  "encode_trails low_byte_field one_bit_per_item scenario_items (isolation_first @ isolation_run)
     (length (isolation_first @ isolation_run)) (of_nat 2) 2 = Inr isolation_out_first"
proof -
  have u: "[0..<2] = [0, Suc 0]" by (simp add: upt_rec)
  show ?thesis
    unfolding encode_trails_runs [OF isolation_first_grouped]
    by (simp add: UINT32_MAX_def u isolation_first_cookie_runs isolation_first_trail
          isolation_trail isolation_out_first_def)
       (simp add: isolation_first_def isolation_run_def)
qed

lemma isolation_toc:
  "toc isolation_out (Suc 0) = 13" "toc isolation_out (Suc (Suc 0)) = 14"
  "toc isolation_out_first (Suc 0) = 13" "toc isolation_out_first (Suc (Suc 0)) = 14"
  by (simp_all add: toc_def read_le32_def isolation_out_def isolation_out_first_def le32_def
        upt_rec)

text \<open>
  The instance of C7 at the second cookie of two streams: cookie 1 has the same run in
  both, behind the cookie 0 of the scenario, which has seen \<open>A=2\<close> last, in the one and
  behind a cookie 0 that has seen \<open>A=1\<close> last in the other. The trail of cookie 1 is the
  byte 12 in both files: its item \<open>A=2\<close> is emitted against the table of zeros, whatever
  cookie 0 has left in the table and in the buffer.
\<close>

theorem entity_isolation_witness:
  "encode_trails low_byte_field one_bit_per_item scenario_items (scenario_run @ isolation_run)
     (length (scenario_run @ isolation_run)) (of_nat 2) 2 = Inr isolation_out \<and>
   encode_trails low_byte_field one_bit_per_item scenario_items (isolation_first @ isolation_run)
     (length (isolation_first @ isolation_run)) (of_nat 2) 2 = Inr isolation_out_first \<and>
   cookie_run (scenario_run @ isolation_run) 0 \<noteq> cookie_run (isolation_first @ isolation_run) 0 \<and>
   cookie_run (scenario_run @ isolation_run) 1 = cookie_run (isolation_first @ isolation_run) 1 \<and>
   file_bytes isolation_out (toc isolation_out 1) (toc isolation_out 2 - toc isolation_out 1)
     = file_bytes isolation_out_first (toc isolation_out_first 1)
         (toc isolation_out_first 2 - toc isolation_out_first 1) \<and>
   file_bytes isolation_out (toc isolation_out 1) (toc isolation_out 2 - toc isolation_out 1)
     = [12]"
proof -
  have k: "Suc 0 < 2" by simp
  have same: "cookie_run (scenario_run @ isolation_run) (Suc 0)
                = cookie_run (isolation_first @ isolation_run) (Suc 0)"
    by (simp add: isolation_cookie_runs isolation_first_cookie_runs)
  have differ: "cookie_run (scenario_run @ isolation_run) 0
                  \<noteq> cookie_run (isolation_first @ isolation_run) 0"
    unfolding isolation_cookie_runs isolation_first_cookie_runs
    by (simp add: scenario_run_def isolation_first_def)
  have bytes: "file_bytes isolation_out 13 (14 - 13) = [12]"
    by (simp add: file_bytes_def isolation_out_def le32_def)
  from entity_isolation [OF isolation_grouped isolation_first_grouped isolation_file
      isolation_first_file k k same]
  have "file_bytes isolation_out (toc isolation_out (Suc 0))
          (toc isolation_out (Suc (Suc 0)) - toc isolation_out (Suc 0))
        = file_bytes isolation_out_first (toc isolation_out_first (Suc 0))
            (toc isolation_out_first (Suc (Suc 0)) - toc isolation_out_first (Suc 0))"
    by simp
  with isolation_file isolation_first_file same differ bytes show ?thesis
    by (simp add: isolation_toc numeral_2_eq_2)
qed

end
